theory Spec2Isabelle
  imports Complex_Main
begin

section \<open>The file watcher of livereload: data model\<close>

text \<open>
  The development embeds \<^verbatim>\<open>src/livereload/watcher.py\<close>: the class \<^verbatim>\<open>Watcher\<close>, a registry of
  watch tasks that is polled through \<^verbatim>\<open>examine\<close>.

  Paths are Python strings. A modification time is the float that \<^verbatim>\<open>os.path.getmtime\<close>
  returns and the start time is the float of \<^verbatim>\<open>time.time()\<close>; the code only compares
  them (\<^verbatim>\<open>>\<close>, \<^verbatim>\<open>!=\<close>), so a finite float is modelled by the real number it denotes
  (infinities and NaN are outside the model).
\<close>

type_synonym path = string
type_synonym mtime = real
type_synonym mtable = "path \<rightharpoonup> mtime"

text \<open>
  The exceptions that can cross the watcher. The source has no \<^verbatim>\<open>raise\<close> of its own:
  an exception comes from \<^verbatim>\<open>glob.glob\<close>, from a task callback or from \<^verbatim>\<open>path[1]\<close> on a
  sequence that is too short.
\<close>

datatype py_error = TypeError | IndexError | OtherError string

text \<open>
  A watch target is the key of \<^verbatim>\<open>self._tasks\<close>: a string, or a sequence (tuple) whose
  second element is the path (\<^verbatim>\<open>is_changed\<close>, lines 148-149).
\<close>

datatype target = TStr path | TSeq "path list"

text \<open>
  The \<^verbatim>\<open>delay\<close> argument of \<^verbatim>\<open>watch\<close>: \<^verbatim>\<open>None\<close>, an int (the default is the int 0), a
  float, or a string such as \<^verbatim>\<open>'forever'\<close>.
\<close>

datatype delay_val = DNone | DInt int | DFloat real | DStr string

text \<open>
  What \<^verbatim>\<open>is_changed\<close> returns: a bool from the file and directory branches and from
  \<^verbatim>\<open>is_file_removed\<close>, the list of changed files from the glob branch.
\<close>

datatype changed = CBool bool | CList "path list"

text \<open>
  A task callback. The watcher reads the number of its declared parameters
  (\<^verbatim>\<open>len(signature(func).parameters)\<close>) and calls it, with the changed list or with no
  argument; the call either returns or raises. What else the callback does is outside
  the watcher; the model assumes it touches neither the watcher nor the files of the
  poll that runs it.
\<close>

record callback =
  cb_params :: nat
  cb_run :: "path list option \<Rightarrow> py_error option"

text \<open>One entry of \<^verbatim>\<open>self._tasks\<close> (lines 90-95).\<close>

record task =
  func :: "callback option"
  delay :: delay_val
  ignore :: "(path \<Rightarrow> bool) option"
  mtimes :: mtable

text \<open>
  The attributes of a \<^verbatim>\<open>Watcher\<close> (lines 34-55). \<^verbatim>\<open>_tasks\<close> is a dict, which keeps its keys
  in insertion order and each key once: it is an association list that \<open>watch\<close> keeps
  free of repeated keys. \<^verbatim>\<open>_changes\<close> is a Python list used as a stack.
  \<open>fired\<close> is not an attribute of the class: it records, in order, every callback
  invocation (the task's key and the argument passed, \<open>None\<close> for a call without
  argument), the one effect of \<^verbatim>\<open>examine\<close> that leaves the object.
  The attribute \<^verbatim>\<open>self.filepath\<close> (line 178) is written and never read; it is left out.
\<close>

record watcher =
  tasks :: "(target \<times> task) list"
  task_mtimes :: mtable
  new_mtimes :: mtable
  changes :: "(path list \<times> real option) list"
  filepaths :: "path list"
  start :: mtime
  ignored_dirs :: "string list"
  ignored_file_extensions :: "string list"
  ignore_patterns :: "string list"
  fired :: "(target \<times> path list option) list"

text \<open>
  What \<^verbatim>\<open>os.walk(top, followlinks=True)\<close> enumerates below a directory: the names of its
  non-directory entries and its sub-directories, each with its own listing. The
  generator yields \<^verbatim>\<open>(root, dirs, files)\<close> for a directory and afterwards descends into
  the names that are still in \<^verbatim>\<open>dirs\<close>.
\<close>

datatype dtree = DTree (dfiles: "string list") (ddirs: "(string \<times> dtree) list")

text \<open>
  The operating system and the standard library as the watcher consumes them, for the
  duration of one poll: \<^verbatim>\<open>os.path.isfile\<close>, \<^verbatim>\<open>os.path.isdir\<close>, \<^verbatim>\<open>os.path.getmtime\<close>,
  \<^verbatim>\<open>os.walk\<close>, \<^verbatim>\<open>glob.glob(_, recursive=True)\<close> (a list of paths, or the exception it
  raises) and \<^verbatim>\<open>fnmatch.fnmatchcase name pattern\<close>.
\<close>

record os_env =
  isfile :: "path \<Rightarrow> bool"
  isdir :: "path \<Rightarrow> bool"
  getmtime :: "path \<Rightarrow> mtime"
  walk :: "path \<Rightarrow> dtree"
  glob_glob :: "path \<Rightarrow> py_error + path list"
  fnmatchcase :: "string \<Rightarrow> string \<Rightarrow> bool"

section \<open>Standard-library helpers\<close>

text \<open>
  \<^verbatim>\<open>s.replace(old, new)\<close> for a non-empty \<^verbatim>\<open>old\<close>: the non-overlapping occurrences are
  replaced from the left.
\<close>

function str_replace :: "string \<Rightarrow> string \<Rightarrow> string \<Rightarrow> string" where
  "str_replace old new s =
     (if s = [] \<or> old = [] then s
      else if take (length old) s = old
        then new @ str_replace old new (drop (length old) s)
      else hd s # str_replace old new (tl s))"
  by pat_completeness auto
termination
  by (relation "measure (\<lambda>(old, new, s). length s)") auto

declare str_replace.simps [simp del]

text \<open>\<^verbatim>\<open>s.rfind(c)\<close>: the highest index of \<^verbatim>\<open>c\<close> in \<^verbatim>\<open>s\<close>, or -1.\<close>

fun rfind :: "char \<Rightarrow> string \<Rightarrow> int" where
  "rfind c [] = - 1"
| "rfind c (x # xs) =
     (let r = rfind c xs in if 0 \<le> r then r + 1 else if x = c then 0 else - 1)"

text \<open>
  \<^verbatim>\<open>os.path.splitext\<close> (posixpath): the extension starts at the last dot of the last
  path component, unless that component has only dots before it.
\<close>

definition splitext :: "path \<Rightarrow> string \<times> string" where
  "splitext p =
     (let sepIndex = rfind CHR ''/'' p;
          dotIndex = rfind CHR ''.'' p
      in if sepIndex < dotIndex \<and>
            list_ex (\<lambda>c. c \<noteq> CHR ''.'')
              (take (nat (dotIndex - (sepIndex + 1))) (drop (nat (sepIndex + 1)) p))
         then (take (nat dotIndex) p, drop (nat dotIndex) p)
         else (p, []))"

text \<open>\<^verbatim>\<open>os.path.join(a, b)\<close> (posixpath, two arguments).\<close>

definition path_join :: "path \<Rightarrow> path \<Rightarrow> path" where
  "path_join a b =
     (if b \<noteq> [] \<and> hd b = CHR ''/'' then b
      else if a = [] \<or> last a = CHR ''/'' then a @ b
      else a @ ''/'' @ b)"

text \<open>
  A matcher for concrete environments: \<^verbatim>\<open>fnmatch.fnmatchcase\<close> on patterns without a
  bracket expression, where \<^verbatim>\<open>*\<close> matches any string (also across \<^verbatim>\<open>/\<close>) and \<^verbatim>\<open>?\<close> any
  character. The watcher's definitions take the matcher from the environment.
\<close>

fun wildcard_match :: "string \<Rightarrow> string \<Rightarrow> bool" where
  "wildcard_match [] n = (n = [])"
| "wildcard_match (p # ps) [] = (p = CHR ''*'' \<and> wildcard_match ps [])"
| "wildcard_match (p # ps) (c # cs) =
     (if p = CHR ''*'' then wildcard_match ps (c # cs) \<or> wildcard_match (p # ps) cs
      else (p = CHR ''?'' \<or> p = c) \<and> wildcard_match ps cs)"

section \<open>The watcher\<close>

text \<open>\<^verbatim>\<open>matches_glob\<close> (lines 26-28).\<close>

definition matches_glob :: "os_env \<Rightarrow> path \<Rightarrow> string \<Rightarrow> bool" where
  "matches_glob env p glob_pattern =
     fnmatchcase env p (str_replace ''/**/'' ''*/'' glob_pattern)"

text \<open>\<^verbatim>\<open>Watcher.__init__\<close> (lines 34-55); the argument is the value of \<^verbatim>\<open>time.time()\<close>.\<close>

definition Watcher_init :: "mtime \<Rightarrow> watcher" where
  "Watcher_init now =
     \<lparr> tasks = [], task_mtimes = Map.empty, new_mtimes = Map.empty, changes = [],
       filepaths = [], start = now,
       ignored_dirs = [''.git'', ''.hg'', ''.svn'', ''.cvs''],
       ignored_file_extensions = [''.pyc'', ''.pyo'', ''.o'', ''.swp''],
       ignore_patterns = [''pollen_src/**/compiled/*''],
       fired = [] \<rparr>"

text \<open>\<^verbatim>\<open>should_ignore\<close> (lines 64-67).\<close>

definition should_ignore :: "watcher \<Rightarrow> path \<Rightarrow> bool" where
  "should_ignore w filename = (snd (splitext filename) \<in> set (ignored_file_extensions w))"

text \<open>\<^verbatim>\<open>should_ignore_by_glob\<close> (lines 69-74): true at the first pattern that matches.\<close>

definition should_ignore_by_glob :: "os_env \<Rightarrow> watcher \<Rightarrow> path \<Rightarrow> bool" where
  "should_ignore_by_glob env w p = list_ex (matches_glob env p) (ignore_patterns w)"

text \<open>
  \<^verbatim>\<open>watch\<close> (lines 79-95): \<^verbatim>\<open>self._tasks[path] = {...}\<close> replaces the value of a key that is
  present, in place, and appends a new key.
\<close>

fun dict_set :: "'k \<Rightarrow> 'v \<Rightarrow> ('k \<times> 'v) list \<Rightarrow> ('k \<times> 'v) list" where
  "dict_set k v [] = [(k, v)]"
| "dict_set k v ((k', v') # kvs) =
     (if k' = k then (k, v) # kvs else (k', v') # dict_set k v kvs)"

definition watch ::
  "watcher \<Rightarrow> target \<Rightarrow> callback option \<Rightarrow> delay_val \<Rightarrow> (path \<Rightarrow> bool) option \<Rightarrow> watcher" where
  "watch w p f d ign =
     w\<lparr>tasks := dict_set p \<lparr>func = f, delay = d, ignore = ign, mtimes = Map.empty\<rparr> (tasks w)\<rparr>"

text \<open>
  Line 197, \<^verbatim>\<open>ignore and ignore(path)\<close>: the custom predicate is \<^verbatim>\<open>None\<close> or a function.
\<close>

definition custom_ignore :: "(path \<Rightarrow> bool) option \<Rightarrow> path \<Rightarrow> bool" where
  "custom_ignore ign p = (case ign of None \<Rightarrow> False | Some f \<Rightarrow> f p)"

text \<open>
  \<^verbatim>\<open>is_file_changed\<close> (lines 181-213): every path that gets past the ignore rules is
  staged in \<^verbatim>\<open>_new_mtimes\<close>.
\<close>

definition is_file_changed ::
  "os_env \<Rightarrow> watcher \<Rightarrow> path \<Rightarrow> (path \<Rightarrow> bool) option \<Rightarrow> bool \<times> watcher" where
  "is_file_changed env w p ign =
     (if \<not> isfile env p then (False, w)
      else if should_ignore w p then (False, w)
      else if should_ignore_by_glob env w p then (False, w)
      else if custom_ignore ign p then (False, w)
      else
        (let mt = getmtime env p in
           case task_mtimes w p of
             None \<Rightarrow>
               (start w < mt,
                w\<lparr>new_mtimes := (new_mtimes w)(p \<mapsto> mt), filepaths := filepaths w @ [p]\<rparr>)
           | Some old \<Rightarrow>
               if old \<noteq> mt
               then (True,
                     w\<lparr>new_mtimes := (new_mtimes w)(p \<mapsto> mt), filepaths := filepaths w @ [p]\<rparr>)
               else (False, w\<lparr>new_mtimes := (new_mtimes w)(p \<mapsto> mt)\<rparr>)))"

text \<open>
  The inner loop of \<^verbatim>\<open>is_folder_changed\<close> (lines 223-225) over the files of one directory;
  \<open>change\<close> is the flag accumulated so far.
\<close>

fun files_loop ::
  "os_env \<Rightarrow> (path \<Rightarrow> bool) option \<Rightarrow> path \<Rightarrow> string list \<Rightarrow> bool \<times> watcher \<Rightarrow> bool \<times> watcher" where
  "files_loop env ign topdir [] cw = cw"
| "files_loop env ign topdir (f # fs) (change, w) =
     (let (b, w') = is_file_changed env w (path_join topdir f) ign
      in files_loop env ign topdir fs (change \<or> b, w'))"

text \<open>
  Lines 219-221: \<^verbatim>\<open>dirs.remove(d)\<close> deletes the first entry named \<^verbatim>\<open>d\<close>, for every \<^verbatim>\<open>d\<close> of
  \<^verbatim>\<open>ignored_dirs\<close> that is in \<^verbatim>\<open>dirs\<close>.
\<close>

fun remove_dir :: "string \<Rightarrow> (string \<times> dtree) list \<Rightarrow> (string \<times> dtree) list" where
  "remove_dir d [] = []"
| "remove_dir d ((n, t) # ds) = (if n = d then ds else (n, t) # remove_dir d ds)"

definition remove_ignored :: "string list \<Rightarrow> (string \<times> dtree) list \<Rightarrow> (string \<times> dtree) list" where
  "remove_ignored ig ds = fold remove_dir ig ds"

text \<open>
  \<^verbatim>\<open>is_folder_changed\<close> (lines 215-226). \<open>walk_tree\<close> is the body of the \<^verbatim>\<open>for\<close> loop at the
  triple that \<^verbatim>\<open>os.walk\<close> yields for the directory \<open>topdir\<close>, followed by the generator's
  descent into the directories left in \<^verbatim>\<open>dirs\<close>, in order, each under
  \<^verbatim>\<open>os.path.join(top, name)\<close>.
\<close>

function walk_tree ::
    "os_env \<Rightarrow> (path \<Rightarrow> bool) option \<Rightarrow> path \<Rightarrow> dtree \<Rightarrow> bool \<times> watcher \<Rightarrow> bool \<times> watcher"
  and walk_dirs ::
    "os_env \<Rightarrow> (path \<Rightarrow> bool) option \<Rightarrow> path \<Rightarrow> (string \<times> dtree) list \<Rightarrow> bool \<times> watcher
       \<Rightarrow> bool \<times> watcher" where
  "walk_tree env ign topdir (DTree files dirs) (change, w) =
     walk_dirs env ign topdir (remove_ignored (ignored_dirs w) dirs)
       (files_loop env ign topdir files (change, w))"
| "walk_dirs env ign topdir [] cw = cw"
| "walk_dirs env ign topdir ((d, t) # ds) cw =
     walk_dirs env ign topdir ds (walk_tree env ign (path_join topdir d) t cw)"
  by pat_completeness auto
termination
proof -
  have rd: "size_list (size_prod (\<lambda>_. 0) size) (remove_dir d ds)
              \<le> size_list (size_prod (\<lambda>_. 0) size) ds" for d ds
    by (induction ds) auto
  have ri: "size_list (size_prod (\<lambda>_. 0) size) (remove_ignored ig ds)
              \<le> size_list (size_prod (\<lambda>_. 0) size) ds" for ig ds
    unfolding remove_ignored_def
  proof (induction ig arbitrary: ds)
    case Nil
    show ?case by simp
  next
    case (Cons d ig)
    have "size_list (size_prod (\<lambda>_. 0) size) (fold remove_dir ig (remove_dir d ds))
            \<le> size_list (size_prod (\<lambda>_. 0) size) (remove_dir d ds)"
      by (rule Cons.IH)
    also have "\<dots> \<le> size_list (size_prod (\<lambda>_. 0) size) ds"
      by (rule rd)
    finally show ?case by simp
  qed
  show ?thesis
    by (relation "measure (\<lambda>x. case x of
            Inl (env, ign, topdir, t, cw) \<Rightarrow> 2 * size t
          | Inr (env, ign, topdir, ds, cw) \<Rightarrow> 2 * size_list (size_prod (\<lambda>_. 0) size) ds + 1)")
       (use ri in \<open>auto simp: le_imp_less_Suc\<close>)
qed

definition is_folder_changed ::
  "os_env \<Rightarrow> watcher \<Rightarrow> path \<Rightarrow> (path \<Rightarrow> bool) option \<Rightarrow> bool \<times> watcher" where
  "is_folder_changed env w p ign = walk_tree env ign p (walk env p) (False, w)"

text \<open>
  The list comprehension of \<^verbatim>\<open>get_changed_glob_files\<close> (line 232): the files for which
  \<^verbatim>\<open>is_file_changed\<close> is true, in order.
\<close>

fun changed_files ::
  "os_env \<Rightarrow> (path \<Rightarrow> bool) option \<Rightarrow> path list \<Rightarrow> watcher \<Rightarrow> path list \<times> watcher" where
  "changed_files env ign [] w = ([], w)"
| "changed_files env ign (f # fs) w =
     (let (b, w') = is_file_changed env w f ign;
          (cs, w'') = changed_files env ign fs w'
      in (if b then f # cs else cs, w''))"

text \<open>
  \<^verbatim>\<open>get_changed_glob_files\<close> (lines 228-240): a \<^verbatim>\<open>TypeError\<close> of the expansion is caught and
  gives the empty list; any other exception propagates.
\<close>

definition get_changed_glob_files ::
  "os_env \<Rightarrow> watcher \<Rightarrow> path \<Rightarrow> (path \<Rightarrow> bool) option \<Rightarrow> (py_error + path list) \<times> watcher" where
  "get_changed_glob_files env w p ign =
     (case glob_glob env p of
        Inl e \<Rightarrow> (if e = TypeError then (Inr [], w) else (Inl e, w))
      | Inr files \<Rightarrow> (let (cs, w') = changed_files env ign files w in (Inr cs, w')))"

text \<open>
  \<^verbatim>\<open>is_file_removed\<close> (lines 164-179): the keys of \<^verbatim>\<open>_task_mtimes\<close> that were not staged are
  popped from it.
\<close>

definition is_file_removed :: "watcher \<Rightarrow> bool \<times> watcher" where
  "is_file_removed w =
     (let removed_paths = dom (task_mtimes w) - dom (new_mtimes w)
      in if removed_paths = {} then (False, w)
         else (True, w\<lparr>task_mtimes := task_mtimes w |` (- removed_paths)\<rparr>))"

text \<open>Python truth of the value that \<^verbatim>\<open>is_changed\<close> computes.\<close>

fun truthy :: "changed \<Rightarrow> bool" where
  "truthy (CBool b) = b"
| "truthy (CList fs) = (fs \<noteq> [])"

text \<open>
  Lines 148-149 of \<^verbatim>\<open>is_changed\<close>: a list or tuple stands for its second element;
  \<^verbatim>\<open>path[1]\<close> raises \<^verbatim>\<open>IndexError\<close> on a shorter sequence.
\<close>

definition target_path :: "target \<Rightarrow> py_error + path" where
  "target_path tgt =
     (case tgt of
        TStr p \<Rightarrow> Inr p
      | TSeq ps \<Rightarrow> if 1 < length ps then Inr (ps ! 1) else Inl IndexError)"

text \<open>
  Lines 151-156 of \<^verbatim>\<open>is_changed\<close>: the check is chosen by what the path is now, a
  regular file, a directory, or anything else, which is taken as a glob pattern.
\<close>

definition scan_target ::
  "os_env \<Rightarrow> watcher \<Rightarrow> path \<Rightarrow> (path \<Rightarrow> bool) option \<Rightarrow> (py_error + changed) \<times> watcher" where
  "scan_target env w p ign =
     (if isfile env p
        then (let (b, w1) = is_file_changed env w p ign in (Inr (CBool b), w1))
      else if isdir env p
        then (let (b, w1) = is_folder_changed env w p ign in (Inr (CBool b), w1))
      else (let (r, w1) = get_changed_glob_files env w p ign in (map_sum id CList r, w1)))"

text \<open>
  \<^verbatim>\<open>is_changed\<close> (lines 140-162). \<^verbatim>\<open>self._task_mtimes\<close> is the table of the task under
  examination (\<^verbatim>\<open>examine\<close> aliases it, line 115) and is updated in place.
  \<^verbatim>\<open>is_file_removed\<close> is called only when the check before it found no change
  (line 158).
\<close>

definition is_changed ::
  "os_env \<Rightarrow> watcher \<Rightarrow> target \<Rightarrow> (path \<Rightarrow> bool) option \<Rightarrow> (py_error + changed) \<times> watcher" where
  "is_changed env w tgt ign =
     (let w0 = w\<lparr>new_mtimes := Map.empty\<rparr> in
      case target_path tgt of
        Inl e \<Rightarrow> (Inl e, w0)
      | Inr p \<Rightarrow>
          (case scan_target env w0 p ign of
             (Inl e, w1) \<Rightarrow> (Inl e, w1)
           | (Inr c, w1) \<Rightarrow>
               (let (c', w2) = (if \<not> truthy c
                                  then (let (b, w2) = is_file_removed w1 in (CBool b, w2))
                                else (c, w1))
                in (Inr c', w2\<lparr>task_mtimes := task_mtimes w2 ++ new_mtimes w2\<rparr>))))"

text \<open>
  Lines 120-121: \<^verbatim>\<open>if delay and isinstance(delay, float): delays.add(delay)\<close>.
\<close>

fun delay_truthy :: "delay_val \<Rightarrow> bool" where
  "delay_truthy DNone = False"
| "delay_truthy (DInt i) = (i \<noteq> 0)"
| "delay_truthy (DFloat r) = (r \<noteq> 0)"
| "delay_truthy (DStr s) = (s \<noteq> [])"

fun add_delay :: "delay_val \<Rightarrow> real set \<Rightarrow> real set" where
  "add_delay (DFloat r) delays = (if delay_truthy (DFloat r) then insert r delays else delays)"
| "add_delay d delays = delays"

text \<open>
  Lines 127-132: the callback gets the changed list when it declares a parameter and
  the value is a list, and no argument otherwise.
\<close>

fun callback_arg :: "callback \<Rightarrow> changed \<Rightarrow> path list option" where
  "callback_arg f (CList fs) = (if 0 < cb_params f then Some fs else None)"
| "callback_arg f (CBool b) = None"

text \<open>
  The loop of \<^verbatim>\<open>examine\<close> (lines 113-132) over the tasks in registration order. The
  table of the task is the one \<^verbatim>\<open>is_changed\<close> has updated (the alias of line 115); the
  function returns the tasks with their new tables. An exception ends the loop with
  the tasks as they are at that point. The log line (lines 123-126) does not act on
  the watcher and is left out.
\<close>

fun examine_tasks ::
  "os_env \<Rightarrow> (target \<times> task) list \<Rightarrow> watcher \<Rightarrow> real set
     \<Rightarrow> (py_error + real set) \<times> (target \<times> task) list \<times> watcher" where
  "examine_tasks env [] w delays = (Inr delays, [], w)"
| "examine_tasks env ((p, item) # rest) w delays =
     (let (r, w1) = is_changed env (w\<lparr>task_mtimes := mtimes item\<rparr>) p (ignore item);
          item' = item\<lparr>mtimes := task_mtimes w1\<rparr>
      in case r of
           Inl e \<Rightarrow> (Inl e, (p, item') # rest, w1)
         | Inr c \<Rightarrow>
             if truthy c then
               (let delays' = add_delay (delay item) delays in
                case func item of
                  None \<Rightarrow>
                    (let (r', ts, w') = examine_tasks env rest w1 delays'
                     in (r', (p, item') # ts, w'))
                | Some f \<Rightarrow>
                    (let w2 = w1\<lparr>fired := fired w1 @ [(p, callback_arg f c)]\<rparr> in
                     case cb_run f (callback_arg f c) of
                       Some e \<Rightarrow> (Inl e, (p, item') # rest, w2)
                     | None \<Rightarrow>
                         (let (r', ts, w') = examine_tasks env rest w2 delays'
                          in (r', (p, item') # ts, w'))))
             else
               (let (r', ts, w') = examine_tasks env rest w1 delays
                in (r', (p, item') # ts, w')))"

text \<open>
  \<^verbatim>\<open>examine\<close> (lines 102-138). \<^verbatim>\<open>self._changes.pop()\<close> removes and returns the last element
  of the list.
\<close>

definition examine :: "os_env \<Rightarrow> watcher \<Rightarrow> (py_error + path list \<times> real option) \<times> watcher" where
  "examine env w =
     (if changes w \<noteq> [] then (Inr (last (changes w)), w\<lparr>changes := butlast (changes w)\<rparr>)
      else
        (let (r, ts, w') = examine_tasks env (tasks w) (w\<lparr>filepaths := []\<rparr>) {}
         in (case r of
               Inl e \<Rightarrow> Inl e
             | Inr delays \<Rightarrow>
                 Inr (filepaths w', if delays = {} then None else Some (Max delays)),
             w'\<lparr>tasks := ts\<rparr>)))"

section \<open>Notions used in the statements\<close>

text \<open>
  A task counts as changed in a poll when \<^verbatim>\<open>is_changed\<close>, run on the task's table,
  returns a true value (line 117).
\<close>

definition task_changed :: "os_env \<Rightarrow> watcher \<Rightarrow> target \<times> task \<Rightarrow> bool" where
  "task_changed env w pt =
     (case fst (is_changed env (w\<lparr>task_mtimes := mtimes (snd pt)\<rparr>) (fst pt) (ignore (snd pt))) of
        Inl e \<Rightarrow> False
      | Inr c \<Rightarrow> truthy c)"

text \<open>
  The numeric value of a delay, int or float: what the specification calls a finite
  numeric delay.
\<close>

definition numeric_delay :: "delay_val \<Rightarrow> real option" where
  "numeric_delay d = (case d of DInt i \<Rightarrow> Some (of_int i) | DFloat r \<Rightarrow> Some r | _ \<Rightarrow> None)"

text \<open>
  A directory listing is well formed when no directory has two sub-directories of the
  same name, at any depth.
\<close>

fun distinct_names :: "dtree \<Rightarrow> bool"
  and distinct_names_list :: "(string \<times> dtree) list \<Rightarrow> bool" where
  "distinct_names (DTree fs ds) = (distinct (map fst ds) \<and> distinct_names_list ds)"
| "distinct_names_list [] = True"
| "distinct_names_list ((n, t) # ds) = (distinct_names t \<and> distinct_names_list ds)"

text \<open>
  The listing without the directories whose name is in \<open>ig\<close>, and without everything
  below them, at every depth.
\<close>

fun prune :: "string list \<Rightarrow> dtree \<Rightarrow> dtree"
  and prune_dirs :: "string list \<Rightarrow> (string \<times> dtree) list \<Rightarrow> (string \<times> dtree) list" where
  "prune ig (DTree fs ds) = DTree fs (prune_dirs ig ds)"
| "prune_dirs ig [] = []"
| "prune_dirs ig ((n, t) # ds) =
     (if n \<in> set ig then prune_dirs ig ds else (n, prune ig t) # prune_dirs ig ds)"

text \<open>
  Two watchers have the same setup when they agree on the start time and the ignore
  configuration; they scan alike when they also agree on the two tables that
  \<^verbatim>\<open>is_file_changed\<close> reads and writes.
\<close>

definition same_setup :: "watcher \<Rightarrow> watcher \<Rightarrow> bool" where
  "same_setup w v \<longleftrightarrow>
     start w = start v \<and> ignored_dirs w = ignored_dirs v \<and>
     ignored_file_extensions w = ignored_file_extensions v \<and>
     ignore_patterns w = ignore_patterns v"

definition same_scan :: "watcher \<Rightarrow> watcher \<Rightarrow> bool" where
  "same_scan w v \<longleftrightarrow>
     same_setup w v \<and> task_mtimes w = task_mtimes v \<and> new_mtimes w = new_mtimes v"

definition same_result :: "'a \<times> watcher \<Rightarrow> 'a \<times> watcher \<Rightarrow> bool" where
  "same_result cw cv \<longleftrightarrow> fst cw = fst cv \<and> same_scan (snd cw) (snd cv)"

text \<open>
  A path is ignored, for a task with the custom predicate \<open>ign\<close>, when one of the three
  rules of \<^verbatim>\<open>is_file_changed\<close> (lines 190-198) holds; \<open>hides\<close> relates a watcher in which
  \<open>p\<close> is ignored to a later one in which \<open>p\<close> has been neither staged nor reported.
\<close>

definition ignored :: "os_env \<Rightarrow> watcher \<Rightarrow> (path \<Rightarrow> bool) option \<Rightarrow> path \<Rightarrow> bool" where
  "ignored env w ign p \<longleftrightarrow>
     should_ignore w p \<or> should_ignore_by_glob env w p \<or> custom_ignore ign p"

definition hides :: "os_env \<Rightarrow> (path \<Rightarrow> bool) option \<Rightarrow> path \<Rightarrow> watcher \<Rightarrow> watcher \<Rightarrow> bool" where
  "hides env ign p a b \<longleftrightarrow>
     (ignored env a ign p \<longrightarrow>
        ignored env b ign p \<and> new_mtimes b p = new_mtimes a p \<and>
        task_mtimes b = task_mtimes a \<and>
        (p \<in> set (filepaths b) \<longrightarrow> p \<in> set (filepaths a)))"

text \<open>
  The paths that the scan of a target hands to \<^verbatim>\<open>is_file_changed\<close>, in order: the path
  itself when it is a regular file, the files that the loop over \<^verbatim>\<open>os.walk\<close> meets when
  it is a directory (\<open>walk_files\<close>, with the ignored directories removed as in lines
  219-221), and otherwise the expansion of the pattern (nothing when it fails).
\<close>

function walk_files :: "string list \<Rightarrow> path \<Rightarrow> dtree \<Rightarrow> path list"
  and walk_files_dirs :: "string list \<Rightarrow> path \<Rightarrow> (string \<times> dtree) list \<Rightarrow> path list" where
  "walk_files ig topdir (DTree files dirs) =
     map (path_join topdir) files @ walk_files_dirs ig topdir (remove_ignored ig dirs)"
| "walk_files_dirs ig topdir [] = []"
| "walk_files_dirs ig topdir ((d, t) # ds) =
     walk_files ig (path_join topdir d) t @ walk_files_dirs ig topdir ds"
  by pat_completeness auto
termination
proof -
  have rd: "size_list (size_prod (\<lambda>_. 0) size) (remove_dir d ds)
              \<le> size_list (size_prod (\<lambda>_. 0) size) ds" for d ds
    by (induction ds) auto
  have ri: "size_list (size_prod (\<lambda>_. 0) size) (remove_ignored ig ds)
              \<le> size_list (size_prod (\<lambda>_. 0) size) ds" for ig ds
    unfolding remove_ignored_def
  proof (induction ig arbitrary: ds)
    case Nil
    show ?case by simp
  next
    case (Cons d ig)
    have "size_list (size_prod (\<lambda>_. 0) size) (fold remove_dir ig (remove_dir d ds))
            \<le> size_list (size_prod (\<lambda>_. 0) size) (remove_dir d ds)"
      by (rule Cons.IH)
    also have "\<dots> \<le> size_list (size_prod (\<lambda>_. 0) size) ds"
      by (rule rd)
    finally show ?case by simp
  qed
  show ?thesis
    by (relation "measure (\<lambda>x. case x of
            Inl (ig, topdir, t) \<Rightarrow> 2 * size t
          | Inr (ig, topdir, ds) \<Rightarrow> 2 * size_list (size_prod (\<lambda>_. 0) size) ds + 1)")
       (use ri in \<open>auto simp: le_imp_less_Suc\<close>)
qed

definition scanned :: "os_env \<Rightarrow> watcher \<Rightarrow> path \<Rightarrow> path list" where
  "scanned env w q =
     (if isfile env q then [q]
      else if isdir env q then walk_files (ignored_dirs w) q (walk env q)
      else (case glob_glob env q of Inl e \<Rightarrow> [] | Inr fs \<Rightarrow> fs))"

text \<open>
  A path is eligible when it is a regular file that no ignore rule covers. The paths
  that a poll lists for a task are the eligible paths its scan visits whose
  modification time is not the one recorded in the task's table, be it after the start
  time or not.
\<close>

definition eligible :: "os_env \<Rightarrow> watcher \<Rightarrow> (path \<Rightarrow> bool) option \<Rightarrow> path \<Rightarrow> bool" where
  "eligible env w ign p \<longleftrightarrow> isfile env p \<and> \<not> ignored env w ign p"

definition reported :: "os_env \<Rightarrow> watcher \<Rightarrow> target \<times> task \<Rightarrow> path list" where
  "reported env w pt =
     (case target_path (fst pt) of
        Inl e \<Rightarrow> []
      | Inr q \<Rightarrow>
          filter (\<lambda>p. eligible env w (ignore (snd pt)) p \<and>
                       mtimes (snd pt) p \<noteq> Some (getmtime env p))
            (scanned env w q))"

section \<open>Concrete scenarios\<close>

text \<open>
  An environment given by the regular files with their modification times and the
  directories with their listings; no glob pattern expands to anything.
\<close>

definition std_env :: "(path \<rightharpoonup> mtime) \<Rightarrow> (path \<rightharpoonup> dtree) \<Rightarrow> os_env" where
  "std_env files dirs =
     \<lparr> isfile = (\<lambda>p. files p \<noteq> None),
       isdir = (\<lambda>p. dirs p \<noteq> None),
       getmtime = (\<lambda>p. case files p of Some m \<Rightarrow> m | None \<Rightarrow> 0),
       walk = (\<lambda>p. case dirs p of Some t \<Rightarrow> t | None \<Rightarrow> DTree [] []),
       glob_glob = (\<lambda>p. Inr []),
       fnmatchcase = (\<lambda>n pat. wildcard_match pat n) \<rparr>"

text \<open>A callback with one parameter that returns normally.\<close>

definition noop :: callback where
  "noop = \<lparr> cb_params = 1, cb_run = (\<lambda>a. None) \<rparr>"

text \<open>Two files written after the watcher started, watched with delays 1.0 and 2.5.\<close>

definition env_two :: os_env where
  "env_two = std_env [''a.css'' \<mapsto> 20, ''b.css'' \<mapsto> 30] Map.empty"

definition w_two :: watcher where
  "w_two = watch (watch (Watcher_init 10) (TStr ''a.css'') None (DFloat 1.0) None)
             (TStr ''b.css'') None (DFloat 2.5) None"

text \<open>The same file watched with the int delay 2.\<close>

definition w_int_delay :: watcher where
  "w_int_delay = watch (Watcher_init 10) (TStr ''a.css'') None (DInt 2) None"

text \<open>The same file watched with the float delay 2.0.\<close>

definition w_float_delay :: watcher where
  "w_float_delay = watch (Watcher_init 10) (TStr ''a.css'') None (DFloat 2.0) None"

text \<open>A watcher with two queued changes.\<close>

definition w_pending :: watcher where
  "w_pending = (watch (Watcher_init 10) (TStr ''a.css'') (Some noop) (DFloat 1.0) None)
     \<lparr>changes := [([''old.css''], None), ([''new.css''], Some 1)]\<rparr>"

text \<open>An environment in which every glob expansion raises \<^verbatim>\<open>TypeError\<close>.\<close>

definition env_glob_fails :: os_env where
  "env_glob_fails = (std_env Map.empty Map.empty)\<lparr>glob_glob := (\<lambda>p. Inl TypeError)\<rparr>"

text \<open>
  A watched directory with a \<^verbatim>\<open>.git\<close> directory in it; the file below \<^verbatim>\<open>.git\<close> is newer
  than the watcher, the other files are known to the task already.
\<close>

definition git_tree :: dtree where
  "git_tree =
     DTree [''index.html''] [(''.git'', DTree [''x''] []), (''css'', DTree [''site.css''] [])]"

definition env_git :: os_env where
  "env_git = std_env [''watched/index.html'' \<mapsto> 5, ''watched/css/site.css'' \<mapsto> 5,
                      ''watched/.git/x'' \<mapsto> 99]
               [''watched'' \<mapsto> git_tree]"

definition w_git :: watcher where
  "w_git = (Watcher_init 10)
     \<lparr>task_mtimes := [''watched/index.html'' \<mapsto> 5, ''watched/css/site.css'' \<mapsto> 5]\<rparr>"

text \<open>New files that the default ignore configuration covers.\<close>

definition env_pyc :: os_env where
  "env_pyc = std_env [''app/views.pyc'' \<mapsto> 99, ''pollen_src/a/compiled/page.html'' \<mapsto> 99]
               Map.empty"

text \<open>
  A directory \<^verbatim>\<open>d\<close> watched with a callback and the delay 2.5. Before: two files older
  than the watcher. After: \<^verbatim>\<open>d/a.css\<close> has been rewritten and \<^verbatim>\<open>d/b.css\<close> deleted.
\<close>

definition env_before :: os_env where
  "env_before = std_env [''d/a.css'' \<mapsto> 5, ''d/b.css'' \<mapsto> 5]
                  [''d'' \<mapsto> DTree [''a.css'', ''b.css''] []]"

definition env_after :: os_env where
  "env_after = std_env [''d/a.css'' \<mapsto> 20] [''d'' \<mapsto> DTree [''a.css''] []]"

definition w_dir :: watcher where
  "w_dir = watch (Watcher_init 10) (TStr ''d'') (Some noop) (DFloat 2.5) None"

text \<open>The watcher after a poll of the first state, and after a poll of the second.\<close>

definition after_first_poll :: watcher where
  "after_first_poll = snd (examine env_before w_dir)"

definition after_second_poll :: watcher where
  "after_second_poll = snd (examine env_after after_first_poll)"

section \<open>Evaluating the scenarios\<close>

lemma default_pattern_processed:
  "str_replace ''/**/'' ''*/'' ''pollen_src/**/compiled/*'' = ''pollen_src*/compiled/*''"
  by (simp add: str_replace.simps)

lemmas eval_defs = examine_def is_changed_def target_path_def scan_target_def
  is_folder_changed_def is_file_changed_def should_ignore_def should_ignore_by_glob_def
  matches_glob_def default_pattern_processed splitext_def custom_ignore_def is_file_removed_def
  get_changed_glob_files_def remove_ignored_def path_join_def watch_def Watcher_init_def
  std_env_def noop_def Let_def

section \<open>What a scan leaves alone\<close>

lemma files_loop_preserves:
  assumes step: "\<And>w p. Q w (snd (is_file_changed env w p ign))"
    and refl: "\<And>w. Q w w"
    and trans: "\<And>a b c. Q a b \<Longrightarrow> Q b c \<Longrightarrow> Q a c"
  shows "Q (snd cw) (snd (files_loop env ign topdir fs cw))"
proof (induction fs arbitrary: cw)
  case Nil
  show ?case by (simp add: refl)
next
  case (Cons f fs)
  obtain c w where cw: "cw = (c, w)" by (cases cw)
  obtain b w' where fc: "is_file_changed env w (path_join topdir f) ign = (b, w')"
    by (cases "is_file_changed env w (path_join topdir f) ign")
  have "Q w w'" using step [of w "path_join topdir f"] fc by simp
  moreover have "Q w' (snd (files_loop env ign topdir fs (c \<or> b, w')))"
    using Cons.IH [of "(c \<or> b, w')"] by simp
  ultimately show ?case using cw fc by (auto intro: trans)
qed

lemma walk_preserves:
  assumes step: "\<And>w p. Q w (snd (is_file_changed env w p ign))"
    and refl: "\<And>w. Q w w"
    and trans: "\<And>a b c. Q a b \<Longrightarrow> Q b c \<Longrightarrow> Q a c"
  shows "Q (snd cw) (snd (walk_tree env ign topdir t cw))"
    and "Q (snd cw) (snd (walk_dirs env ign topdir ds cw))"
  using step
proof (induction env ign topdir t cw and env ign topdir ds cw rule: walk_tree_walk_dirs.induct)
  case (1 env ign topdir files dirs change w)
  have "Q w (snd (files_loop env ign topdir files (change, w)))"
    using files_loop_preserves [of Q env ign "(change, w)" topdir files, OF "1.prems" refl trans]
    by simp
  then show ?case using 1 by (auto intro: trans)
next
  case (2 env ign topdir cw)
  then show ?case by (simp add: refl)
next
  case (3 env ign topdir d t ds cw)
  then show ?case by (auto intro: trans)
qed

lemma is_file_changed_frame:
  "ignored_dirs (snd (is_file_changed env w p ign)) = ignored_dirs w \<and>
   ignored_file_extensions (snd (is_file_changed env w p ign)) = ignored_file_extensions w \<and>
   ignore_patterns (snd (is_file_changed env w p ign)) = ignore_patterns w \<and>
   start (snd (is_file_changed env w p ign)) = start w \<and>
   task_mtimes (snd (is_file_changed env w p ign)) = task_mtimes w \<and>
   tasks (snd (is_file_changed env w p ign)) = tasks w \<and>
   changes (snd (is_file_changed env w p ign)) = changes w \<and>
   fired (snd (is_file_changed env w p ign)) = fired w"
  by (simp add: is_file_changed_def Let_def split: option.splits)


lemma changed_files_preserves:
  assumes step: "\<And>w p. Q w (snd (is_file_changed env w p ign))"
    and refl: "\<And>w. Q w w"
    and trans: "\<And>a b c. Q a b \<Longrightarrow> Q b c \<Longrightarrow> Q a c"
  shows "Q w (snd (changed_files env ign fs w))"
proof (induction fs arbitrary: w)
  case Nil
  show ?case by (simp add: refl)
next
  case (Cons f fs)
  obtain b w' where fw: "is_file_changed env w f ign = (b, w')"
    by (cases "is_file_changed env w f ign")
  have "Q w w'" using step [of w f] fw by simp
  moreover have "Q w' (snd (changed_files env ign fs w'))" by (rule Cons.IH)
  ultimately have "Q w (snd (changed_files env ign fs w'))" by (rule trans)
  then show ?case using fw by (cases "changed_files env ign fs w'") simp
qed

lemma scan_target_preserves:
  assumes step: "\<And>w p. Q w (snd (is_file_changed env w p ign))"
    and refl: "\<And>w. Q w w"
    and trans: "\<And>a b c. Q a b \<Longrightarrow> Q b c \<Longrightarrow> Q a c"
  shows "Q w (snd (scan_target env w p ign))"
proof (cases "isfile env p")
  case True
  then show ?thesis using step [of w p]
    by (cases "is_file_changed env w p ign") (simp add: scan_target_def)
next
  case nf: False
  show ?thesis
  proof (cases "isdir env p")
    case True
    have "Q w (snd (walk_tree env ign p (walk env p) (False, w)))"
      using walk_preserves(1) [of Q env ign "(False, w)" p "walk env p", OF step refl trans]
      by simp
    then show ?thesis using nf True
      by (cases "is_folder_changed env w p ign") (simp add: scan_target_def is_folder_changed_def)
  next
    case nd: False
    show ?thesis
    proof (cases "glob_glob env p")
      case (Inl e)
      then show ?thesis using nf nd
        by (simp add: scan_target_def get_changed_glob_files_def refl)
    next
      case (Inr fs)
      have "Q w (snd (changed_files env ign fs w))"
        using step refl trans by (rule changed_files_preserves)
      then show ?thesis using nf nd Inr
        by (cases "changed_files env ign fs w")
           (simp add: scan_target_def get_changed_glob_files_def)
    qed
  qed
qed

lemma same_setup_refl: "same_setup w w"
  by (simp add: same_setup_def)

lemma same_setup_trans: "same_setup a b \<Longrightarrow> same_setup b c \<Longrightarrow> same_setup a c"
  by (simp add: same_setup_def)

lemma is_file_changed_setup: "same_setup w (snd (is_file_changed env w p ign))"
  by (simp add: same_setup_def is_file_changed_frame)

lemma is_file_removed_setup: "same_setup w (snd (is_file_removed w))"
  by (simp add: is_file_removed_def same_setup_def Let_def)

lemma scan_target_setup: "same_setup w (snd (scan_target env w p ign))"
  using is_file_changed_setup same_setup_refl same_setup_trans
  by (rule scan_target_preserves)

lemma is_changed_setup: "same_setup w (snd (is_changed env w tgt ign))"
proof (cases "target_path tgt")
  case (Inl e)
  then show ?thesis by (simp add: is_changed_def same_setup_def)
next
  case (Inr p)
  let ?w0 = "w\<lparr>new_mtimes := Map.empty\<rparr>"
  obtain r w1 where st: "scan_target env ?w0 p ign = (r, w1)"
    by (cases "scan_target env ?w0 p ign")
  have s1: "same_setup w w1"
    using scan_target_setup [of ?w0 env p ign] st by (simp add: same_setup_def)
  show ?thesis
  proof (cases r)
    case (Inl e)
    then show ?thesis using Inr st s1 by (simp add: is_changed_def)
  next
    case c: (Inr c)
    obtain b w2 where fr: "is_file_removed w1 = (b, w2)" by (cases "is_file_removed w1")
    have "same_setup w w2"
      using s1 is_file_removed_setup [of w1] fr by (simp add: same_setup_def)
    then show ?thesis using Inr st s1 c fr
      by (simp add: is_changed_def same_setup_def)
  qed
qed
lemma files_loop_ignored_dirs:
  "ignored_dirs (snd (files_loop env ign topdir fs cw)) = ignored_dirs (snd cw)"
  by (rule files_loop_preserves [where Q = "\<lambda>a b. ignored_dirs b = ignored_dirs a"])
     (simp_all add: is_file_changed_frame)

lemma walk_tree_ignored_dirs:
  "ignored_dirs (snd (walk_tree env ign topdir t cw)) = ignored_dirs (snd cw)"
  by (rule walk_preserves(1) [where Q = "\<lambda>a b. ignored_dirs b = ignored_dirs a"])
     (simp_all add: is_file_changed_frame)


section \<open>Pruned directories\<close>

lemma remove_dir_filter:
  "distinct (map fst ds) \<Longrightarrow> remove_dir d ds = filter (\<lambda>x. fst x \<noteq> d) ds"
proof (induction ds)
  case Nil
  show ?case by simp
next
  case (Cons x ds)
  obtain n t where x: "x = (n, t)" by (cases x)
  have "n \<notin> fst ` set ds" using Cons.prems x by simp
  then have "filter (\<lambda>y. fst y \<noteq> n) ds = ds"
    by (auto intro!: filter_True)
  then show ?case using Cons x by auto
qed

lemma remove_ignored_filter:
  "distinct (map fst ds) \<Longrightarrow> remove_ignored ig ds = filter (\<lambda>x. fst x \<notin> set ig) ds"
  unfolding remove_ignored_def
proof (induction ig arbitrary: ds)
  case Nil
  show ?case by simp
next
  case (Cons d ig)
  have "distinct (map fst (filter (\<lambda>x. fst x \<noteq> d) ds))"
    using Cons.prems by (simp add: distinct_map_filter)
  then have "fold remove_dir ig (filter (\<lambda>x. fst x \<noteq> d) ds)
               = filter (\<lambda>x. fst x \<notin> set ig) (filter (\<lambda>x. fst x \<noteq> d) ds)"
    by (rule Cons.IH)
  then show ?case using Cons.prems by (simp add: remove_dir_filter conj_commute)
qed

lemma prune_dirs_names:
  "x \<in> set (prune_dirs ig ds) \<Longrightarrow> fst x \<notin> set ig \<and> fst x \<in> fst ` set ds"
  by (induction ds) (auto split: if_splits)

lemma prune_dirs_distinct: "distinct (map fst ds) \<Longrightarrow> distinct (map fst (prune_dirs ig ds))"
proof (induction ds)
  case Nil
  show ?case by simp
next
  case (Cons x ds)
  obtain n t where x: "x = (n, t)" by (cases x)
  have "n \<notin> fst ` set (prune_dirs ig ds)"
    using Cons.prems x prune_dirs_names [of _ ig ds] by auto
  then show ?case using Cons x by simp
qed

lemma remove_ignored_pruned:
  assumes "distinct (map fst ds)"
  shows "remove_ignored ig (prune_dirs ig ds) = prune_dirs ig ds"
proof -
  have "\<forall>x \<in> set (prune_dirs ig ds). fst x \<notin> set ig"
    using prune_dirs_names [of _ ig ds] by auto
  then have "filter (\<lambda>x. fst x \<notin> set ig) (prune_dirs ig ds) = prune_dirs ig ds"
    by simp
  then show ?thesis
    using remove_ignored_filter [OF prune_dirs_distinct [OF assms], of ig ig] by simp
qed

lemma walk_prune_aux:
  "(\<forall>env ign topdir c. \<forall>w :: watcher. ignored_dirs w = ig \<longrightarrow> distinct_names t \<longrightarrow>
      walk_tree env ign topdir (prune ig t) (c, w) = walk_tree env ign topdir t (c, w))"
  "(\<forall>env ign topdir. \<forall>cw :: bool \<times> watcher. ignored_dirs (snd cw) = ig \<longrightarrow> distinct_names_list ds \<longrightarrow>
      walk_dirs env ign topdir (prune_dirs ig ds) cw
        = walk_dirs env ign topdir (filter (\<lambda>x. fst x \<notin> set ig) ds) cw)"
proof (induction ig t and ig ds rule: prune_prune_dirs.induct)
  case (1 ig fs ds)
  show ?case
  proof (intro allI impI)
    fix env ign topdir c and w :: watcher
    assume ig: "ignored_dirs w = ig" and dn: "distinct_names (DTree fs ds)"
    let ?cw = "files_loop env ign topdir fs (c, w)"
    have d: "distinct (map fst ds)" and dl: "distinct_names_list ds" using dn by simp_all
    have "ignored_dirs (snd ?cw) = ig" using ig by (simp add: files_loop_ignored_dirs)
    then have "walk_dirs env ign topdir (prune_dirs ig ds) ?cw
                 = walk_dirs env ign topdir (filter (\<lambda>x. fst x \<notin> set ig) ds) ?cw"
      using 1 dl by blast
    then show "walk_tree env ign topdir (prune ig (DTree fs ds)) (c, w)
                 = walk_tree env ign topdir (DTree fs ds) (c, w)"
      using ig d by (simp add: remove_ignored_pruned remove_ignored_filter)
  qed
next
  case (2 ig)
  show ?case by simp
next
  case (3 ig n t ds)
  show ?case
  proof (intro allI impI)
    fix env ign topdir and cw :: "bool \<times> watcher"
    assume ig: "ignored_dirs (snd cw) = ig" and dn: "distinct_names_list ((n, t) # ds)"
    obtain c and w :: watcher where cw: "cw = (c, w)" by (cases cw)
    have dt: "distinct_names t" and dl: "distinct_names_list ds" using dn by simp_all
    show "walk_dirs env ign topdir (prune_dirs ig ((n, t) # ds)) cw
            = walk_dirs env ign topdir (filter (\<lambda>x. fst x \<notin> set ig) ((n, t) # ds)) cw"
    proof (cases "n \<in> set ig")
      case True
      have "walk_dirs env ign topdir (prune_dirs ig ds) cw
              = walk_dirs env ign topdir (filter (\<lambda>x. fst x \<notin> set ig) ds) cw"
        using 3(1) [OF True] ig dl by blast
      then show ?thesis using True by simp
    next
      case False
      let ?cw' = "walk_tree env ign (path_join topdir n) t cw"
      have t: "walk_tree env ign (path_join topdir n) (prune ig t) cw = ?cw'"
        using 3(2) [OF False] ig dt unfolding cw by simp
      have "ignored_dirs (snd ?cw') = ig" using ig by (simp add: walk_tree_ignored_dirs)
      then have "walk_dirs env ign topdir (prune_dirs ig ds) ?cw'
                   = walk_dirs env ign topdir (filter (\<lambda>x. fst x \<notin> set ig) ds) ?cw'"
        using 3(3) [OF False] dl by blast
      then show ?thesis using False t by simp
    qed
  qed
qed


section \<open>The result of a scan depends on the setup and the tables only\<close>

lemma is_file_changed_same:
  "same_scan w v \<Longrightarrow> same_result (is_file_changed env w p ign) (is_file_changed env v p ign)"
  by (simp add: same_result_def same_scan_def same_setup_def is_file_changed_def
      should_ignore_def should_ignore_by_glob_def Let_def split: option.splits)

lemma files_loop_same:
  "same_result cw cv \<Longrightarrow>
   same_result (files_loop env ign topdir fs cw) (files_loop env ign topdir fs cv)"
proof (induction fs arbitrary: cw cv)
  case Nil
  then show ?case by simp
next
  case (Cons f fs)
  obtain c w where cw: "cw = (c, w)" by (cases cw)
  obtain c' v where cv: "cv = (c', v)" by (cases cv)
  have eq: "c' = c" and ss: "same_scan w v"
    using Cons.prems cw cv by (simp_all add: same_result_def)
  obtain b w' where fw: "is_file_changed env w (path_join topdir f) ign = (b, w')"
    by (cases "is_file_changed env w (path_join topdir f) ign")
  obtain b' v' where fv: "is_file_changed env v (path_join topdir f) ign = (b', v')"
    by (cases "is_file_changed env v (path_join topdir f) ign")
  have "same_result (b, w') (b', v')"
    using is_file_changed_same [OF ss, of env "path_join topdir f" ign] fw fv by simp
  then have "same_result (c \<or> b, w') (c \<or> b', v')"
    by (simp add: same_result_def)
  then have "same_result (files_loop env ign topdir fs (c \<or> b, w'))
               (files_loop env ign topdir fs (c \<or> b', v'))"
    by (rule Cons.IH)
  then show ?case using cw cv eq fw fv by simp
qed

lemma walk_same_aux:
  "\<forall>cv. same_result cw cv \<longrightarrow>
     same_result (walk_tree env ign topdir t cw) (walk_tree env ign topdir t cv)"
  "\<forall>cv. same_result cw cv \<longrightarrow>
     same_result (walk_dirs env ign topdir ds cw) (walk_dirs env ign topdir ds cv)"
proof (induction env ign topdir t cw and env ign topdir ds cw rule: walk_tree_walk_dirs.induct)
  case (1 env ign topdir files dirs change w)
  show ?case
  proof (intro allI impI)
    fix cv :: "bool \<times> watcher"
    assume sr: "same_result (change, w) cv"
    obtain c' v where cv: "cv = (c', v)" by (cases cv)
    have ig: "ignored_dirs v = ignored_dirs w"
      using sr cv by (simp add: same_result_def same_scan_def same_setup_def)
    have "same_result (files_loop env ign topdir files (change, w))
            (files_loop env ign topdir files cv)"
      using sr by (rule files_loop_same)
    then have "same_result
        (walk_dirs env ign topdir (remove_ignored (ignored_dirs w) dirs)
           (files_loop env ign topdir files (change, w)))
        (walk_dirs env ign topdir (remove_ignored (ignored_dirs w) dirs)
           (files_loop env ign topdir files cv))"
      using 1 by blast
    then show "same_result (walk_tree env ign topdir (DTree files dirs) (change, w))
                 (walk_tree env ign topdir (DTree files dirs) cv)"
      using cv ig by simp
  qed
next
  case (2 env ign topdir cw)
  show ?case by simp
next
  case (3 env ign topdir d t ds cw)
  show ?case
  proof (intro allI impI)
    fix cv :: "bool \<times> watcher"
    assume sr: "same_result cw cv"
    have "same_result (walk_tree env ign (path_join topdir d) t cw)
            (walk_tree env ign (path_join topdir d) t cv)"
      using 3(1) sr by blast
    then have "same_result
        (walk_dirs env ign topdir ds (walk_tree env ign (path_join topdir d) t cw))
        (walk_dirs env ign topdir ds (walk_tree env ign (path_join topdir d) t cv))"
      using 3(2) by blast
    then show "same_result (walk_dirs env ign topdir ((d, t) # ds) cw)
                 (walk_dirs env ign topdir ((d, t) # ds) cv)"
      by simp
  qed
qed

lemma is_folder_changed_same:
  "same_scan w v \<Longrightarrow> same_result (is_folder_changed env w p ign) (is_folder_changed env v p ign)"
proof -
  assume "same_scan w v"
  then have "same_result (False, w) (False, v)" by (simp add: same_result_def)
  then show ?thesis
    unfolding is_folder_changed_def using walk_same_aux(1) by blast
qed

lemma changed_files_same:
  "same_scan w v \<Longrightarrow> same_result (changed_files env ign fs w) (changed_files env ign fs v)"
proof (induction fs arbitrary: w v)
  case Nil
  then show ?case by (simp add: same_result_def)
next
  case (Cons f fs)
  obtain b w' where fw: "is_file_changed env w f ign = (b, w')"
    by (cases "is_file_changed env w f ign")
  obtain b' v' where fv: "is_file_changed env v f ign = (b', v')"
    by (cases "is_file_changed env v f ign")
  have s1: "b' = b" "same_scan w' v'"
    using is_file_changed_same [OF Cons.prems, of env f ign] fw fv
    by (simp_all add: same_result_def)
  obtain cs w'' where cw: "changed_files env ign fs w' = (cs, w'')"
    by (cases "changed_files env ign fs w'")
  obtain cs' v'' where cv: "changed_files env ign fs v' = (cs', v'')"
    by (cases "changed_files env ign fs v'")
  have "cs' = cs" "same_scan w'' v''"
    using Cons.IH [OF s1(2)] cw cv by (simp_all add: same_result_def)
  then show ?case using fw fv cw cv s1 by (simp add: same_result_def)
qed

lemma get_changed_glob_files_same:
  "same_scan w v \<Longrightarrow>
   same_result (get_changed_glob_files env w p ign) (get_changed_glob_files env v p ign)"
proof (cases "glob_glob env p")
  case (Inl e)
  assume "same_scan w v"
  then show ?thesis using Inl by (simp add: get_changed_glob_files_def same_result_def)
next
  case (Inr fs)
  assume "same_scan w v"
  then have "same_result (changed_files env ign fs w) (changed_files env ign fs v)"
    by (rule changed_files_same)
  then show ?thesis using Inr
    by (auto simp: get_changed_glob_files_def same_result_def split: prod.splits)
qed

lemma is_file_removed_same:
  "same_scan w v \<Longrightarrow> same_result (is_file_removed w) (is_file_removed v)"
  by (simp add: is_file_removed_def same_result_def same_scan_def same_setup_def Let_def)


lemma scan_target_same:
  assumes "same_scan w v"
  shows "same_result (scan_target env w p ign) (scan_target env v p ign)"
proof (cases "isfile env p")
  case True
  then show ?thesis using is_file_changed_same [OF assms, of env p ign]
    by (cases "is_file_changed env w p ign"; cases "is_file_changed env v p ign")
       (simp add: scan_target_def same_result_def)
next
  case nf: False
  show ?thesis
  proof (cases "isdir env p")
    case True
    then show ?thesis using nf is_folder_changed_same [OF assms, of env p ign]
      by (cases "is_folder_changed env w p ign"; cases "is_folder_changed env v p ign")
         (simp add: scan_target_def same_result_def)
  next
    case False
    then show ?thesis using nf get_changed_glob_files_same [OF assms, of env p ign]
      by (cases "get_changed_glob_files env w p ign"; cases "get_changed_glob_files env v p ign")
         (simp add: scan_target_def same_result_def)
  qed
qed

lemma is_changed_same:
  assumes "same_setup w v" and "task_mtimes w = task_mtimes v"
  shows "same_result (is_changed env w tgt ign) (is_changed env v tgt ign)"
proof (cases "target_path tgt")
  case (Inl e)
  then show ?thesis using assms
    by (simp add: is_changed_def same_result_def same_scan_def same_setup_def)
next
  case (Inr p)
  let ?w0 = "w\<lparr>new_mtimes := Map.empty\<rparr>" and ?v0 = "v\<lparr>new_mtimes := Map.empty\<rparr>"
  have s0: "same_scan ?w0 ?v0" using assms by (simp add: same_scan_def same_setup_def)
  obtain r w1 where sw: "scan_target env ?w0 p ign = (r, w1)"
    by (cases "scan_target env ?w0 p ign")
  obtain r' v1 where sv: "scan_target env ?v0 p ign = (r', v1)"
    by (cases "scan_target env ?v0 p ign")
  have eq: "r' = r" and s1: "same_scan w1 v1"
    using scan_target_same [OF s0, of env p ign] sw sv by (simp_all add: same_result_def)
  show ?thesis
  proof (cases r)
    case (Inl e)
    then show ?thesis using Inr sw sv eq s1 by (simp add: is_changed_def same_result_def)
  next
    case c: (Inr c)
    obtain b w2 where fw: "is_file_removed w1 = (b, w2)" by (cases "is_file_removed w1")
    obtain b' v2 where fv: "is_file_removed v1 = (b', v2)" by (cases "is_file_removed v1")
    have "b' = b" and "same_scan w2 v2"
      using is_file_removed_same [OF s1] fw fv by (simp_all add: same_result_def)
    then show ?thesis using Inr sw sv eq s1 c fw fv
      by (simp add: is_changed_def same_result_def same_scan_def same_setup_def)
  qed
qed


section \<open>The loop over the tasks\<close>

lemma task_changed_cong:
  assumes "same_setup w v"
  shows "task_changed env w pt = task_changed env v pt"
proof -
  have "same_result
          (is_changed env (w\<lparr>task_mtimes := mtimes (snd pt)\<rparr>) (fst pt) (ignore (snd pt)))
          (is_changed env (v\<lparr>task_mtimes := mtimes (snd pt)\<rparr>) (fst pt) (ignore (snd pt)))"
    using assms by (intro is_changed_same) (simp_all add: same_setup_def)
  then show ?thesis by (simp add: task_changed_def same_result_def)
qed

lemma add_delay_eq:
  "add_delay d delays = delays \<union> {r. r \<noteq> 0 \<and> d = DFloat r}"
  by (cases d) auto

lemma examine_tasks_delays:
  "examine_tasks env ts w delays = (Inr D, ts', w') \<Longrightarrow>
   D = delays \<union> {r. r \<noteq> 0 \<and> (\<exists>pt \<in> set ts. task_changed env w pt \<and> delay (snd pt) = DFloat r)}"
proof (induction ts arbitrary: w delays D ts' w')
  case Nil
  then show ?case by simp
next
  case (Cons pt rest)
  obtain p item where pt: "pt = (p, item)" by (cases pt)
  let ?w = "w\<lparr>task_mtimes := mtimes item\<rparr>"
  obtain r w1 where ic: "is_changed env ?w p (ignore item) = (r, w1)"
    by (cases "is_changed env ?w p (ignore item)")
  have s1: "same_setup w w1"
  proof -
    have "same_setup w ?w" by (simp add: same_setup_def)
    moreover have "same_setup ?w w1" using is_changed_setup [of ?w env p "ignore item"] ic by simp
    ultimately show ?thesis by (rule same_setup_trans)
  qed
  have tc: "task_changed env w1 q = task_changed env w q" for q
    using task_changed_cong [OF s1, of env q] by simp
  let ?S = "\<lambda>ts. {r. r \<noteq> 0 \<and> (\<exists>q \<in> set ts. task_changed env w q \<and> delay (snd q) = DFloat r)}"
  show ?case
  proof (cases r)
    case (Inl e)
    then show ?thesis using Cons.prems pt ic by simp
  next
    case (Inr c)
    have here: "task_changed env w pt = truthy c"
      using pt ic Inr by (simp add: task_changed_def)
    show ?thesis
    proof (cases "truthy c")
      case False
      obtain r' ts2 w2 where rec: "examine_tasks env rest w1 delays = (r', ts2, w2)"
        by (cases "examine_tasks env rest w1 delays")
      have "r' = Inr D" using Cons.prems pt ic Inr False rec by simp
      then have "D = delays \<union> {r. r \<noteq> 0 \<and>
          (\<exists>q \<in> set rest. task_changed env w1 q \<and> delay (snd q) = DFloat r)}"
        using Cons.IH rec by simp
      then have "D = delays \<union> ?S rest" by (simp add: tc)
      moreover have "?S (pt # rest) = ?S rest" using here False by auto
      ultimately show ?thesis by simp
    next
      case True
      let ?d = "add_delay (delay item) delays"
      have split: "delays \<union> ?S (pt # rest) = ?d \<union> ?S rest"
        using here True pt by (auto simp: add_delay_eq)
      show ?thesis
      proof (cases "func item")
        case None
        obtain r' ts2 w2 where rec: "examine_tasks env rest w1 ?d = (r', ts2, w2)"
          by (cases "examine_tasks env rest w1 ?d")
        have "r' = Inr D" using Cons.prems pt ic Inr True None rec by simp
        then have "D = ?d \<union> {r. r \<noteq> 0 \<and>
            (\<exists>q \<in> set rest. task_changed env w1 q \<and> delay (snd q) = DFloat r)}"
          using Cons.IH rec by simp
        then have "D = ?d \<union> ?S rest" by (simp add: tc)
        then show ?thesis using split by simp
      next
        case (Some f)
        let ?w2 = "w1\<lparr>fired := fired w1 @ [(p, callback_arg f c)]\<rparr>"
        have run: "cb_run f (callback_arg f c) = None"
          using Cons.prems pt ic Inr True Some by (simp add: Let_def split: option.splits)
        obtain r' ts2 w3 where rec: "examine_tasks env rest ?w2 ?d = (r', ts2, w3)"
          by (cases "examine_tasks env rest ?w2 ?d")
        have "r' = Inr D" using Cons.prems pt ic Inr True Some run rec by (simp add: Let_def)
        then have "D = ?d \<union> {r. r \<noteq> 0 \<and>
            (\<exists>q \<in> set rest. task_changed env ?w2 q \<and> delay (snd q) = DFloat r)}"
          using Cons.IH rec by simp
        moreover have "task_changed env ?w2 q = task_changed env w q" for q
        proof -
          have "task_changed env ?w2 q = task_changed env w1 q"
            by (rule task_changed_cong) (simp add: same_setup_def)
          then show ?thesis by (simp add: tc)
        qed
        ultimately have "D = ?d \<union> ?S rest" by simp
        then show ?thesis using split by simp
      qed
    qed
  qed
qed

lemma examine_tasks_setup:
  "examine_tasks env ts w delays = (r, ts', w') \<Longrightarrow> same_setup w w'"
proof (induction ts arbitrary: w delays r ts' w')
  case Nil
  then show ?case by (simp add: same_setup_def)
next
  case (Cons pt rest)
  obtain p item where pt: "pt = (p, item)" by (cases pt)
  let ?w = "w\<lparr>task_mtimes := mtimes item\<rparr>"
  obtain r1 w1 where ic: "is_changed env ?w p (ignore item) = (r1, w1)"
    by (cases "is_changed env ?w p (ignore item)")
  have s1: "same_setup w w1"
    using is_changed_setup [of ?w env p "ignore item"] ic by (simp add: same_setup_def)
  have rec: "same_setup w w'"
    if "same_setup w v" and "examine_tasks env rest v d = (r2, ts2, w')" for v d r2 ts2
    using that(1) Cons.IH [OF that(2)] by (rule same_setup_trans)
  show ?case
  proof (cases r1)
    case (Inl e)
    then show ?thesis using Cons.prems pt ic s1 by simp
  next
    case (Inr c)
    show ?thesis
    proof (cases "truthy c")
      case False
      obtain r2 ts2 w2 where e2: "examine_tasks env rest w1 delays = (r2, ts2, w2)"
        by (cases "examine_tasks env rest w1 delays")
      have "w2 = w'" using Cons.prems pt ic Inr False e2 by simp
      then show ?thesis using rec [OF s1] e2 by simp
    next
      case True
      let ?d = "add_delay (delay item) delays"
      show ?thesis
      proof (cases "func item")
        case None
        obtain r2 ts2 w2 where e2: "examine_tasks env rest w1 ?d = (r2, ts2, w2)"
          by (cases "examine_tasks env rest w1 ?d")
        have "w2 = w'" using Cons.prems pt ic Inr True None e2 by simp
        then show ?thesis using rec [OF s1] e2 by simp
      next
        case (Some f)
        let ?w2 = "w1\<lparr>fired := fired w1 @ [(p, callback_arg f c)]\<rparr>"
        have s2: "same_setup w ?w2" using s1 by (simp add: same_setup_def)
        show ?thesis
        proof (cases "cb_run f (callback_arg f c)")
          case (Some e)
          then have "?w2 = w'" using Cons.prems pt ic Inr True \<open>func item = Some f\<close>
            by (simp add: Let_def)
          then show ?thesis using s2 by simp
        next
          case None
          obtain r2 ts2 w3 where e2: "examine_tasks env rest ?w2 ?d = (r2, ts2, w3)"
            by (cases "examine_tasks env rest ?w2 ?d")
          have "w3 = w'" using Cons.prems pt ic Inr True Some None e2 by (simp add: Let_def)
          then show ?thesis using rec [OF s2] e2 by simp
        qed
      qed
    qed
  qed
qed

lemma examine_setup: "same_setup w (snd (examine env w))"
proof (cases "changes w = []")
  case False
  then show ?thesis by (simp add: examine_def same_setup_def)
next
  case True
  let ?w0 = "w\<lparr>filepaths := []\<rparr>"
  obtain r ts w' where et: "examine_tasks env (tasks w) ?w0 {} = (r, ts, w')"
    by (cases "examine_tasks env (tasks w) ?w0 {}")
  have "same_setup ?w0 w'" using et by (rule examine_tasks_setup)
  then show ?thesis using True et by (simp add: examine_def same_setup_def)
qed

section \<open>Ignored paths stay hidden\<close>

lemma hides_refl: "hides env ign p a a"
  by (simp add: hides_def)

lemma hides_trans: "hides env ign p a b \<Longrightarrow> hides env ign p b c \<Longrightarrow> hides env ign p a c"
  by (auto simp: hides_def)

lemma is_file_changed_hides: "hides env ign p w (snd (is_file_changed env w q ign))"
proof (cases "q = p")
  case True
  then show ?thesis by (auto simp: hides_def ignored_def is_file_changed_def)
next
  case False
  then show ?thesis
    by (auto simp: hides_def ignored_def is_file_changed_def should_ignore_def
        should_ignore_by_glob_def Let_def split: option.splits)
qed

lemma scan_target_hides: "hides env ign p w (snd (scan_target env w q ign))"
  using is_file_changed_hides hides_refl hides_trans
  by (rule scan_target_preserves)

section \<open>The paths a scan visits and lists\<close>

lemma changed_files_append:
  "changed_files env ign (xs @ ys) w =
     (fst (changed_files env ign xs w)
        @ fst (changed_files env ign ys (snd (changed_files env ign xs w))),
      snd (changed_files env ign ys (snd (changed_files env ign xs w))))"
proof (induction xs arbitrary: w)
  case Nil
  show ?case by simp
next
  case (Cons x xs)
  obtain b w1 where f: "is_file_changed env w x ign = (b, w1)"
    by (cases "is_file_changed env w x ign")
  show ?case using f Cons.IH [of w1]
    by (simp add: case_prod_unfold Let_def)
qed

lemma changed_files_ignored_dirs:
  "ignored_dirs (snd (changed_files env ign fs w)) = ignored_dirs w"
  by (rule changed_files_preserves [where Q = "\<lambda>a b. ignored_dirs b = ignored_dirs a"])
     (simp_all add: is_file_changed_frame)

lemma files_loop_flat:
  "files_loop env ign topdir fs (c, w) =
     (c \<or> fst (changed_files env ign (map (path_join topdir) fs) w) \<noteq> [],
      snd (changed_files env ign (map (path_join topdir) fs) w))"
proof (induction fs arbitrary: c w)
  case Nil
  show ?case by simp
next
  case (Cons f fs)
  obtain b w1 where fc: "is_file_changed env w (path_join topdir f) ign = (b, w1)"
    by (cases "is_file_changed env w (path_join topdir f) ign")
  show ?case using fc Cons.IH [of "c \<or> b" w1]
    by (auto simp: case_prod_unfold Let_def)
qed

lemma walk_flat:
  "walk_tree env ign topdir t cw =
     (fst cw \<or> fst (changed_files env ign (walk_files (ignored_dirs (snd cw)) topdir t) (snd cw)) \<noteq> [],
      snd (changed_files env ign (walk_files (ignored_dirs (snd cw)) topdir t) (snd cw)))"
  "walk_dirs env ign topdir ds cw =
     (fst cw \<or> fst (changed_files env ign (walk_files_dirs (ignored_dirs (snd cw)) topdir ds) (snd cw)) \<noteq> [],
      snd (changed_files env ign (walk_files_dirs (ignored_dirs (snd cw)) topdir ds) (snd cw)))"
proof (induction env ign topdir t cw and env ign topdir ds cw rule: walk_tree_walk_dirs.induct)
  case (1 env ign topdir files dirs change w)
  let ?fl = "files_loop env ign topdir files (change, w)"
  let ?w1 = "snd (changed_files env ign (map (path_join topdir) files) w)"
  have fl: "?fl = (change \<or> fst (changed_files env ign (map (path_join topdir) files) w) \<noteq> [], ?w1)"
    by (rule files_loop_flat)
  have ig: "ignored_dirs ?w1 = ignored_dirs w" by (rule changed_files_ignored_dirs)
  show ?case
    using 1 fl ig by (simp add: changed_files_append)
next
  case (2 env ign topdir cw)
  show ?case by simp
next
  case (3 env ign topdir d t ds cw)
  let ?w1 = "snd (changed_files env ign (walk_files (ignored_dirs (snd cw)) (path_join topdir d) t) (snd cw))"
  have ig: "ignored_dirs ?w1 = ignored_dirs (snd cw)" by (rule changed_files_ignored_dirs)
  show ?case
    using 3 ig by (simp add: changed_files_append)
qed

lemma eligible_cong: "same_setup w v \<Longrightarrow> eligible env w ign p = eligible env v ign p"
  by (simp add: eligible_def ignored_def should_ignore_def should_ignore_by_glob_def
      same_setup_def)

lemma scanned_cong: "same_setup w v \<Longrightarrow> scanned env w q = scanned env v q"
  by (simp add: scanned_def same_setup_def)

lemma reported_cong:
  assumes "same_setup w v"
  shows "reported env w pt = reported env v pt"
  by (cases "target_path (fst pt)")
     (simp_all add: reported_def eligible_cong [OF assms] scanned_cong [OF assms])

lemma is_file_changed_flag:
  "fst (is_file_changed env w p ign) \<longleftrightarrow>
     eligible env w ign p \<and>
     (case task_mtimes w p of None \<Rightarrow> start w < getmtime env p
      | Some old \<Rightarrow> old \<noteq> getmtime env p)"
  by (auto simp: is_file_changed_def eligible_def ignored_def Let_def split: option.splits)

lemma is_file_changed_filepaths:
  "filepaths (snd (is_file_changed env w p ign)) =
     filepaths w @ (if eligible env w ign p \<and> task_mtimes w p \<noteq> Some (getmtime env p)
                    then [p] else [])"
  by (auto simp: is_file_changed_def eligible_def ignored_def Let_def split: option.splits)

lemma changed_files_flag:
  "fst (changed_files env ign fs w) =
     filter (\<lambda>p. eligible env w ign p \<and>
                  (case task_mtimes w p of None \<Rightarrow> start w < getmtime env p
                   | Some old \<Rightarrow> old \<noteq> getmtime env p)) fs"
proof (induction fs arbitrary: w)
  case Nil
  show ?case by simp
next
  case (Cons f fs)
  obtain b w1 where fc: "is_file_changed env w f ign = (b, w1)"
    by (cases "is_file_changed env w f ign")
  have s: "same_setup w w1" using is_file_changed_setup [of w env f ign] fc by simp
  have t: "task_mtimes w1 = task_mtimes w" "start w1 = start w"
    using is_file_changed_frame [of env w f ign] fc by simp_all
  have b: "b \<longleftrightarrow> eligible env w ign f \<and>
     (case task_mtimes w f of None \<Rightarrow> start w < getmtime env f
      | Some old \<Rightarrow> old \<noteq> getmtime env f)"
    using is_file_changed_flag [of env w f ign] fc by simp
  show ?case
    using fc Cons.IH [of w1] b t eligible_cong [OF s, of env ign]
    by (simp add: case_prod_unfold Let_def cong: option.case_cong)
qed

lemma changed_files_filepaths:
  "filepaths (snd (changed_files env ign fs w)) =
     filepaths w @
     filter (\<lambda>p. eligible env w ign p \<and> task_mtimes w p \<noteq> Some (getmtime env p)) fs"
proof (induction fs arbitrary: w)
  case Nil
  show ?case by simp
next
  case (Cons f fs)
  obtain b w1 where fc: "is_file_changed env w f ign = (b, w1)"
    by (cases "is_file_changed env w f ign")
  have s: "same_setup w w1" using is_file_changed_setup [of w env f ign] fc by simp
  have t: "task_mtimes w1 = task_mtimes w"
    using is_file_changed_frame [of env w f ign] fc by simp
  have fp: "filepaths w1 =
     filepaths w @ (if eligible env w ign f \<and> task_mtimes w f \<noteq> Some (getmtime env f)
                    then [f] else [])"
    using is_file_changed_filepaths [of env w f ign] fc by simp
  show ?case
    using fc Cons.IH [of w1] fp t eligible_cong [OF s, of env ign]
    by (simp add: case_prod_unfold Let_def)
qed

lemma is_file_changed_kept:
  "task_mtimes (snd (is_file_changed env w p ign)) = task_mtimes w \<and>
   fired (snd (is_file_changed env w p ign)) = fired w"
  by (simp add: is_file_changed_frame)

lemma scan_target_kept:
  "task_mtimes (snd (scan_target env w q ign)) = task_mtimes w \<and>
   fired (snd (scan_target env w q ign)) = fired w"
  by (rule scan_target_preserves
        [where Q = "\<lambda>a b. task_mtimes b = task_mtimes a \<and> fired b = fired a"])
     (simp_all add: is_file_changed_kept)

lemma scan_target_flat:
  assumes "scan_target env w q ign = (r, w1)"
  shows "(\<exists>e. r = Inl e \<and> w1 = w) \<or>
         (\<exists>c. r = Inr c \<and> w1 = snd (changed_files env ign (scanned env w q) w) \<and>
              (truthy c \<longleftrightarrow> fst (changed_files env ign (scanned env w q) w) \<noteq> []))"
proof (cases "isfile env q")
  case True
  then show ?thesis using assms
    by (cases "is_file_changed env w q ign") (auto simp: scan_target_def scanned_def)
next
  case nf: False
  show ?thesis
  proof (cases "isdir env q")
    case True
    then show ?thesis using assms nf walk_flat(1) [of env ign q "walk env q" "(False, w)"]
      by (auto simp: scan_target_def scanned_def is_folder_changed_def)
  next
    case nd: False
    show ?thesis
    proof (cases "glob_glob env q")
      case (Inl e)
      then show ?thesis using assms nf nd
        by (auto simp: scan_target_def scanned_def get_changed_glob_files_def split: if_splits)
    next
      case (Inr fs)
      then show ?thesis using assms nf nd
        by (cases "changed_files env ign fs w")
           (auto simp: scan_target_def scanned_def get_changed_glob_files_def)
    qed
  qed
qed

lemma is_changed_filepaths:
  assumes "is_changed env w tgt ign = (Inr c, w')"
  shows "\<exists>q. target_path tgt = Inr q \<and>
           filepaths w' = filepaths w @
             filter (\<lambda>p. eligible env w ign p \<and> task_mtimes w p \<noteq> Some (getmtime env p))
               (scanned env w q)"
proof (cases "target_path tgt")
  case (Inl e)
  then show ?thesis using assms by (simp add: is_changed_def)
next
  case (Inr q)
  let ?w0 = "w\<lparr>new_mtimes := Map.empty\<rparr>"
  have s0: "same_setup w ?w0" by (simp add: same_setup_def)
  obtain r w1 where st: "scan_target env ?w0 q ign = (r, w1)"
    by (cases "scan_target env ?w0 q ign")
  obtain c1 where r: "r = Inr c1" using assms Inr st by (cases r) (simp_all add: is_changed_def)
  have w1: "w1 = snd (changed_files env ign (scanned env ?w0 q) ?w0)"
    using scan_target_flat [OF st] r by auto
  have "filepaths w1 = filepaths ?w0 @
          filter (\<lambda>p. eligible env ?w0 ign p \<and> task_mtimes ?w0 p \<noteq> Some (getmtime env p))
            (scanned env ?w0 q)"
    unfolding w1 by (rule changed_files_filepaths)
  then have fp: "filepaths w1 = filepaths w @
          filter (\<lambda>p. eligible env w ign p \<and> task_mtimes w p \<noteq> Some (getmtime env p))
            (scanned env w q)"
    using eligible_cong [OF s0, of env ign] scanned_cong [OF s0, of env q] by simp
  obtain b w2 where fr: "is_file_removed w1 = (b, w2)" by (cases "is_file_removed w1")
  have "filepaths w2 = filepaths w1"
    using fr by (auto simp: is_file_removed_def Let_def split: if_splits)
  then have "filepaths w' = filepaths w1"
    using assms Inr st r fr by (auto simp: is_changed_def split: if_splits)
  then show ?thesis using Inr fp by simp
qed

lemma is_changed_fired: "fired (snd (is_changed env w tgt ign)) = fired w"
proof (cases "target_path tgt")
  case (Inl e)
  then show ?thesis by (simp add: is_changed_def)
next
  case (Inr q)
  let ?w0 = "w\<lparr>new_mtimes := Map.empty\<rparr>"
  obtain r w1 where st: "scan_target env ?w0 q ign = (r, w1)"
    by (cases "scan_target env ?w0 q ign")
  have f1: "fired w1 = fired w" using scan_target_kept [of env ?w0 q ign] st by simp
  obtain b w2 where fr: "is_file_removed w1 = (b, w2)" by (cases "is_file_removed w1")
  have "fired w2 = fired w1"
    using fr by (auto simp: is_file_removed_def Let_def split: if_splits)
  then show ?thesis using Inr st f1 fr
    by (cases r) (auto simp: is_changed_def)
qed

lemma old_task_not_changed:
  assumes "mtimes (snd pt) = Map.empty"
    and "\<forall>p \<in> set (reported env w pt). getmtime env p \<le> start w"
  shows "\<not> task_changed env w pt"
proof (cases "target_path (fst pt)")
  case (Inl e)
  then show ?thesis by (simp add: task_changed_def is_changed_def)
next
  case (Inr q)
  let ?ign = "ignore (snd pt)"
  let ?w0 = "w\<lparr>task_mtimes := Map.empty, new_mtimes := Map.empty\<rparr>"
  have s0: "same_setup w ?w0" by (simp add: same_setup_def)
  obtain r w1 where st: "scan_target env ?w0 q ?ign = (r, w1)"
    by (cases "scan_target env ?w0 q ?ign")
  have old: "getmtime env p \<le> start w"
    if "p \<in> set (scanned env w q)" and "eligible env w ?ign p" for p
    using assms that Inr by (simp add: reported_def)
  have "filter (\<lambda>p. eligible env ?w0 ?ign p \<and>
                  (case task_mtimes ?w0 p of None \<Rightarrow> start ?w0 < getmtime env p
                   | Some old \<Rightarrow> old \<noteq> getmtime env p)) (scanned env ?w0 q) = []"
  proof -
    have "\<not> start w < getmtime env p"
      if "p \<in> set (scanned env ?w0 q)" and "eligible env ?w0 ?ign p" for p
    proof -
      have "p \<in> set (scanned env w q)" using that(1) scanned_cong [OF s0, of env q] by simp
      moreover have "eligible env w ?ign p"
        using that(2) eligible_cong [OF s0, of env ?ign p] by simp
      ultimately have "getmtime env p \<le> start w" by (rule old)
      then show ?thesis by simp
    qed
    then show ?thesis by (auto simp: filter_empty_conv)
  qed
  then have none: "fst (changed_files env ?ign (scanned env ?w0 q) ?w0) = []"
    by (simp only: changed_files_flag)
  have tm: "task_mtimes w1 = Map.empty" using scan_target_kept [of env ?w0 q ?ign] st by simp
  show ?thesis
  proof (cases r)
    case (Inl e)
    then show ?thesis using Inr st assms(1) by (simp add: task_changed_def is_changed_def)
  next
    case c: (Inr c)
    have "\<not> truthy c" using scan_target_flat [OF st] c none by auto
    then show ?thesis using Inr st assms(1) c tm
      by (simp add: task_changed_def is_changed_def is_file_removed_def Let_def)
  qed
qed

lemma examine_tasks_filepaths:
  "examine_tasks env ts w delays = (Inr D, ts', w') \<Longrightarrow>
   filepaths w' = filepaths w @ concat (map (reported env w) ts)"
proof (induction ts arbitrary: w delays D ts' w')
  case Nil
  then show ?case by simp
next
  case (Cons pt rest)
  obtain p item where pt: "pt = (p, item)" by (cases pt)
  let ?w = "w\<lparr>task_mtimes := mtimes item\<rparr>"
  have sw: "same_setup w ?w" by (simp add: same_setup_def)
  obtain r w1 where ic: "is_changed env ?w p (ignore item) = (r, w1)"
    by (cases "is_changed env ?w p (ignore item)")
  obtain c where r: "r = Inr c" using Cons.prems pt ic by (cases r) simp_all
  have s1: "same_setup w w1"
    using is_changed_setup [of ?w env p "ignore item"] ic by (simp add: same_setup_def)
  obtain q where q: "target_path p = Inr q"
    and fp: "filepaths w1 = filepaths ?w @
          filter (\<lambda>x. eligible env ?w (ignore item) x \<and> task_mtimes ?w x \<noteq> Some (getmtime env x))
            (scanned env ?w q)"
    using is_changed_filepaths [of env ?w p "ignore item" c w1] ic r by auto
  have here: "filepaths w1 = filepaths w @ reported env w pt"
    using fp q pt eligible_cong [OF sw, of env "ignore item"] scanned_cong [OF sw, of env q]
    by (simp add: reported_def)
  have rec: "filepaths w' = filepaths w @ concat (map (reported env w) (pt # rest))"
    if "same_setup w1 v" and "filepaths v = filepaths w1"
      and "examine_tasks env rest v d = (Inr D, ts2, w')" for v d ts2
  proof -
    have "same_setup w v" using s1 that(1) by (rule same_setup_trans)
    then have "reported env v x = reported env w x" for x
      using reported_cong [of w v env x] by simp
    then show ?thesis using Cons.IH [OF that(3)] that(2) here by simp
  qed
  show ?case
  proof (cases "truthy c")
    case False
    obtain r2 ts2 w2 where e2: "examine_tasks env rest w1 delays = (r2, ts2, w2)"
      by (cases "examine_tasks env rest w1 delays")
    have "r2 = Inr D" "w2 = w'" using Cons.prems pt ic r False e2 by simp_all
    then show ?thesis using rec [OF same_setup_refl refl] e2 by simp
  next
    case True
    let ?d = "add_delay (delay item) delays"
    show ?thesis
    proof (cases "func item")
      case None
      obtain r2 ts2 w2 where e2: "examine_tasks env rest w1 ?d = (r2, ts2, w2)"
        by (cases "examine_tasks env rest w1 ?d")
      have "r2 = Inr D" "w2 = w'" using Cons.prems pt ic r True None e2 by simp_all
      then show ?thesis using rec [OF same_setup_refl refl] e2 by simp
    next
      case (Some f)
      let ?w2 = "w1\<lparr>fired := fired w1 @ [(p, callback_arg f c)]\<rparr>"
      have run: "cb_run f (callback_arg f c) = None"
        using Cons.prems pt ic r True Some by (simp add: Let_def split: option.splits)
      obtain r2 ts2 w3 where e2: "examine_tasks env rest ?w2 ?d = (r2, ts2, w3)"
        by (cases "examine_tasks env rest ?w2 ?d")
      have "r2 = Inr D" "w3 = w'"
        using Cons.prems pt ic r True Some run e2 by (simp_all add: Let_def)
      moreover have "same_setup w1 ?w2" by (simp add: same_setup_def)
      moreover have "filepaths ?w2 = filepaths w1" by simp
      ultimately show ?thesis using rec e2 by blast
    qed
  qed
qed

lemma examine_tasks_quiet:
  "examine_tasks env ts w delays = (r, ts', w') \<Longrightarrow>
   \<forall>pt \<in> set ts. \<not> task_changed env w pt \<Longrightarrow> fired w' = fired w"
proof (induction ts arbitrary: w delays r ts' w')
  case Nil
  then show ?case by simp
next
  case (Cons pt rest)
  obtain p item where pt: "pt = (p, item)" by (cases pt)
  let ?w = "w\<lparr>task_mtimes := mtimes item\<rparr>"
  obtain r1 w1 where ic: "is_changed env ?w p (ignore item) = (r1, w1)"
    by (cases "is_changed env ?w p (ignore item)")
  have s1: "same_setup w w1"
    using is_changed_setup [of ?w env p "ignore item"] ic by (simp add: same_setup_def)
  have f1: "fired w1 = fired w" using is_changed_fired [of env ?w p "ignore item"] ic by simp
  show ?case
  proof (cases r1)
    case (Inl e)
    then show ?thesis using Cons.prems(1) pt ic f1 by auto
  next
    case (Inr c)
    have "\<not> truthy c" using Cons.prems(2) pt ic Inr by (simp add: task_changed_def)
    moreover obtain r2 ts2 w2 where e2: "examine_tasks env rest w1 delays = (r2, ts2, w2)"
      by (cases "examine_tasks env rest w1 delays")
    ultimately have w2: "w2 = w'" using Cons.prems(1) pt ic Inr by simp
    have "\<forall>x \<in> set rest. \<not> task_changed env w1 x"
      using Cons.prems(2) task_changed_cong [OF s1, of env] by simp
    then have "fired w2 = fired w1" using Cons.IH [OF e2] by simp
    then show ?thesis using w2 f1 by simp
  qed
qed

section \<open>The claims\<close>

subsection \<open>C1: no stale entries in a task's table\<close>

text \<open>
  Claim C1: after the diff of a task, its table has no entry for a path that was in the
  previous table and was not staged again, and a task with such a path is reported
  changed and the path is dropped.

  The code does not do this when the same diff also finds an added or modified file:
  \<^verbatim>\<open>is_file_removed\<close>, which drops the paths, is called only if nothing else changed
  (line 158). In the run below the directory \<^verbatim>\<open>d\<close> holds two files at the first poll;
  before the second poll one is rewritten and the other deleted. After the second poll
  the deleted \<^verbatim>\<open>d/b.css\<close>, which was not staged, is still in the task's table.
\<close>

theorem removal_purge_skipped:
  "mtimes (snd (hd (tasks after_first_poll))) ''d/b.css'' = Some 5 \<and>
   \<not> isfile env_after ''d/b.css'' \<and>
   fst (examine env_after after_first_poll) = Inr ([''d/a.css''], Some 2.5) \<and>
   new_mtimes after_second_poll ''d/b.css'' = None \<and>
   mtimes (snd (hd (tasks after_second_poll))) ''d/b.css'' = Some 5"
  by (simp add: after_second_poll_def after_first_poll_def eval_defs env_before_def env_after_def
      w_dir_def)

subsection \<open>C2: the delay returned by a poll\<close>

text \<open>
  Claim C2: a poll with no queued change returns as delay the maximum of the delays of
  the tasks changed in this poll whose delay is a finite numeric value, and \<^verbatim>\<open>None\<close> if
  there is none; with two changed tasks of delays 1.0 and 2.5 it returns 2.5.

  The code does not do this for a numeric delay that is not a float instance: line 120
  tests \<^verbatim>\<open>isinstance(delay, float)\<close>, while \<^verbatim>\<open>watch\<close> takes the int 0 as its default and
  documents no restriction to floats, and line 126 logs an int as the task's delay.
  Below, the same changed file is watched once with the int delay 2 and once with the
  float delay 2.0: the first poll returns no delay, the second returns 2.
\<close>

theorem integer_delay_dropped:
  "changes w_int_delay = [] \<and>
   map (\<lambda>t. (task_changed env_two w_int_delay t, numeric_delay (delay (snd t)))) (tasks w_int_delay)
     = [(True, Some 2)] \<and>
   fst (examine env_two w_int_delay) = Inr ([''a.css''], None) \<and>
   map (\<lambda>t. (task_changed env_two w_float_delay t, numeric_delay (delay (snd t))))
       (tasks w_float_delay)
     = [(True, Some 2)] \<and>
   fst (examine env_two w_float_delay) = Inr ([''a.css''], Some 2)"
  by (simp add: task_changed_def numeric_delay_def eval_defs env_two_def w_int_delay_def
      w_float_delay_def)

text \<open>
  What the loop computes in general: the maximum of the delays of the changed tasks
  that are floats other than zero.
\<close>

theorem examine_delay_is_max_of_float_delays:
  assumes "changes w = []" and "fst (examine env w) = Inr (ps, d)"
  shows "d = (let D = {r. r \<noteq> 0 \<and>
                         (\<exists>pt \<in> set (tasks w). task_changed env w pt \<and> delay (snd pt) = DFloat r)}
              in if D = {} then None else Some (Max D))"
proof -
  let ?w0 = "w\<lparr>filepaths := []\<rparr>"
  obtain r ts w' where et: "examine_tasks env (tasks w) ?w0 {} = (r, ts, w')"
    by (cases "examine_tasks env (tasks w) ?w0 {}")
  obtain D where r: "r = Inr D" and d: "d = (if D = {} then None else Some (Max D))"
    using assms et by (cases r) (simp_all add: examine_def)
  have "D = {} \<union> {r. r \<noteq> 0 \<and>
      (\<exists>pt \<in> set (tasks w). task_changed env ?w0 pt \<and> delay (snd pt) = DFloat r)}"
    using examine_tasks_delays [of env "tasks w" ?w0 "{}" D ts w'] et r by simp
  moreover have "task_changed env ?w0 pt = task_changed env w pt" for pt
    by (rule task_changed_cong) (simp add: same_setup_def)
  ultimately show ?thesis using d by (simp add: Let_def)
qed

text \<open>Two changed file tasks with the delays 1.0 and 2.5: the poll returns 2.5.\<close>

theorem examine_delay_is_max_of_float_delays_witness:
  "changes w_two = [] \<and>
   fst (examine env_two w_two) = Inr ([''a.css'', ''b.css''], Some 2.5) \<and>
   Some 2.5 =
     (let D = {r. r \<noteq> 0 \<and> (\<exists>pt \<in> set (tasks w_two).
                  task_changed env_two w_two pt \<and> delay (snd pt) = DFloat r)}
      in if D = {} then None else Some (Max D))"
proof -
  have h1: "changes w_two = []" by (simp add: w_two_def watch_def Watcher_init_def)
  have h2: "fst (examine env_two w_two) = Inr ([''a.css'', ''b.css''], Some 2.5)"
    by (simp add: eval_defs env_two_def w_two_def)
  from examine_delay_is_max_of_float_delays [OF h1 h2] h1 h2 show ?thesis by blast
qed

subsection \<open>C3: the single-file check\<close>

text \<open>
  Claim C3: for a regular file that no ignore rule covers, \<^verbatim>\<open>is_file_changed\<close> returns
  true on first sight exactly when the modification time is after the start time, and
  for a path in the task's table exactly when the modification time differs from the
  recorded one; in each case the current modification time is staged in \<^verbatim>\<open>_new_mtimes\<close>.
  The start time is set by the constructor and changed by no check, registration or
  poll.
\<close>

theorem is_file_changed_classification:
  assumes "isfile env p" and "\<not> should_ignore w p" and "\<not> should_ignore_by_glob env w p"
    and "\<not> custom_ignore ign p"
  shows "(fst (is_file_changed env w p ign) \<longleftrightarrow>
            (case task_mtimes w p of
               None \<Rightarrow> start w < getmtime env p
             | Some old \<Rightarrow> old \<noteq> getmtime env p)) \<and>
         new_mtimes (snd (is_file_changed env w p ign)) = (new_mtimes w)(p \<mapsto> getmtime env p) \<and>
         start (snd (is_file_changed env w p ign)) = start w \<and>
         start (Watcher_init now) = now \<and>
         start (watch w tgt f d i) = start w \<and>
         start (snd (examine env w)) = start w"
proof -
  have "start (snd (examine env w)) = start w"
    using examine_setup [of w env] by (simp add: same_setup_def)
  then show ?thesis
    using assms
    by (simp add: is_file_changed_def Let_def Watcher_init_def watch_def split: option.splits)
qed

theorem is_file_changed_classification_witness:
  "isfile env_two ''a.css'' \<and> \<not> should_ignore (Watcher_init 10) ''a.css'' \<and>
   \<not> should_ignore_by_glob env_two (Watcher_init 10) ''a.css'' \<and>
   \<not> custom_ignore None ''a.css'' \<and>
   fst (is_file_changed env_two (Watcher_init 10) ''a.css'' None) \<and>
   new_mtimes (snd (is_file_changed env_two (Watcher_init 10) ''a.css'' None)) ''a.css'' = Some 20"
proof -
  have h1: "isfile env_two ''a.css''" by (simp add: env_two_def std_env_def)
  have h2: "\<not> should_ignore (Watcher_init 10) ''a.css''" by (simp add: eval_defs)
  have h3: "\<not> should_ignore_by_glob env_two (Watcher_init 10) ''a.css''"
    by (simp add: eval_defs env_two_def)
  have h4: "\<not> custom_ignore None ''a.css''" by (simp add: custom_ignore_def)
  from is_file_changed_classification [OF h1 h2 h3 h4] h1 h2 h3 h4
  show ?thesis by (simp add: Watcher_init_def env_two_def std_env_def)
qed

subsection \<open>C4: a second poll without a change in between\<close>

text \<open>
  Claim C4: a poll that follows another with no change of the files in between returns
  the empty list and no delay.

  The code does not do this after a poll that found a modified file and left a deleted
  one in the table (see C1; it is the same defect): the next poll, over the same files,
  finds the stale entry, reports the task changed, runs its callback again and returns
  the task's delay.
\<close>

theorem second_idle_poll_reports_delay:
  "fst (examine env_after after_first_poll) = Inr ([''d/a.css''], Some 2.5) \<and>
   fst (examine env_after after_second_poll) = Inr ([], Some 2.5) \<and>
   length (fired (snd (examine env_after after_second_poll))) = 2"
  by (simp add: after_second_poll_def after_first_poll_def eval_defs env_before_def env_after_def
      w_dir_def)

subsection \<open>C5: ignored paths\<close>

text \<open>
  Claim C5: a path for which an ignore rule holds (the extension blacklist, an ignore
  pattern, or the task's predicate) is invisible. The single-file check returns false
  and changes nothing; and the diff of any target with that predicate neither stages
  the path, nor adds it to the task's table, nor appends it to the changed paths,
  whatever the modification time of the file.
\<close>

theorem ignored_path_invisible:
  assumes "should_ignore w p \<or> should_ignore_by_glob env w p \<or> custom_ignore ign p"
  shows "is_file_changed env w p ign = (False, w) \<and>
         new_mtimes (snd (is_changed env w tgt ign)) p = None \<and>
         (p \<in> dom (task_mtimes (snd (is_changed env w tgt ign))) \<longrightarrow> p \<in> dom (task_mtimes w)) \<and>
         (p \<in> set (filepaths (snd (is_changed env w tgt ign))) \<longrightarrow> p \<in> set (filepaths w))"
proof -
  let ?w0 = "w\<lparr>new_mtimes := Map.empty\<rparr>"
  have single: "is_file_changed env w p ign = (False, w)"
    using assms by (auto simp: is_file_changed_def)
  have i0: "ignored env ?w0 ign p"
    using assms by (simp add: ignored_def should_ignore_def should_ignore_by_glob_def)
  have diff: "new_mtimes (snd (is_changed env w tgt ign)) p = None \<and>
         (p \<in> dom (task_mtimes (snd (is_changed env w tgt ign))) \<longrightarrow> p \<in> dom (task_mtimes w)) \<and>
         (p \<in> set (filepaths (snd (is_changed env w tgt ign))) \<longrightarrow> p \<in> set (filepaths w))"
  proof (cases "target_path tgt")
    case (Inl e)
    then show ?thesis by (simp add: is_changed_def)
  next
    case (Inr q)
    obtain r w1 where st: "scan_target env ?w0 q ign = (r, w1)"
      by (cases "scan_target env ?w0 q ign")
    have h: "new_mtimes w1 p = None" "task_mtimes w1 = task_mtimes w"
      "p \<in> set (filepaths w1) \<longrightarrow> p \<in> set (filepaths w)"
      using scan_target_hides [of env ign p ?w0 q] st i0 by (simp_all add: hides_def)
    show ?thesis
    proof (cases r)
      case (Inl e)
      then show ?thesis using Inr st h by (simp add: is_changed_def)
    next
      case c: (Inr c)
      show ?thesis
      proof (cases "truthy c")
        case True
        then show ?thesis using Inr st h c
          by (auto simp: is_changed_def map_add_def split: option.splits)
      next
        case False
        then show ?thesis using Inr st h c
          by (auto simp: is_changed_def is_file_removed_def Let_def map_add_def restrict_map_def
              split: option.splits if_splits)
      qed
    qed
  qed
  show ?thesis using single diff by simp
qed

theorem ignored_path_invisible_witness:
  "should_ignore (Watcher_init 10) ''app/views.pyc'' \<and>
   should_ignore_by_glob env_pyc (Watcher_init 10) ''pollen_src/a/compiled/page.html'' \<and>
   custom_ignore (Some (\<lambda>p. p = ''d/a.css'')) ''d/a.css'' \<and>
   is_file_changed env_pyc (Watcher_init 10) ''app/views.pyc'' None = (False, Watcher_init 10) \<and>
   is_file_changed env_pyc (Watcher_init 10) ''pollen_src/a/compiled/page.html'' None
     = (False, Watcher_init 10) \<and>
   is_file_changed env_after (Watcher_init 10) ''d/a.css'' (Some (\<lambda>p. p = ''d/a.css''))
     = (False, Watcher_init 10) \<and>
   filepaths (snd (is_changed env_after (Watcher_init 10) (TStr ''d'') (Some (\<lambda>p. p = ''d/a.css''))))
     = []"
proof -
  have h1: "should_ignore (Watcher_init 10) ''app/views.pyc''"
    by (simp add: eval_defs)
  have h2: "should_ignore_by_glob env_pyc (Watcher_init 10) ''pollen_src/a/compiled/page.html''"
    by (simp add: eval_defs env_pyc_def)
  have h3: "custom_ignore (Some (\<lambda>p. p = ''d/a.css'')) ''d/a.css''"
    by (simp add: custom_ignore_def)
  have e: "filepaths (snd (is_changed env_after (Watcher_init 10) (TStr ''d'')
             (Some (\<lambda>p. p = ''d/a.css'')))) = []"
    by (simp add: eval_defs env_after_def)
  from ignored_path_invisible [of "Watcher_init 10" "''app/views.pyc''" env_pyc None]
    ignored_path_invisible [of "Watcher_init 10" "''pollen_src/a/compiled/page.html''" env_pyc None]
    ignored_path_invisible [of "Watcher_init 10" "''d/a.css''" env_after
      "Some (\<lambda>p. p = ''d/a.css'')"]
    h1 h2 h3 e
  show ?thesis by simp
qed

subsection \<open>C6: queued changes\<close>

text \<open>
  Claim C6: when \<^verbatim>\<open>_changes\<close> is not empty, \<^verbatim>\<open>examine\<close> returns its last element, the one
  queued most recently, and removes it from the queue; nothing else of the watcher
  changes: no table is touched and no callback runs.
\<close>

theorem examine_pending:
  assumes "changes w \<noteq> []"
  shows "examine env w = (Inr (last (changes w)), w\<lparr>changes := butlast (changes w)\<rparr>)"
  using assms by (simp add: examine_def)

theorem examine_pending_witness:
  "changes w_pending \<noteq> [] \<and>
   fst (examine env_two w_pending) = Inr ([''new.css''], Some 1) \<and>
   changes (snd (examine env_two w_pending)) = [([''old.css''], None)] \<and>
   tasks (snd (examine env_two w_pending)) = tasks w_pending \<and>
   fired (snd (examine env_two w_pending)) = []"
proof -
  have h: "changes w_pending \<noteq> []" by (simp add: w_pending_def)
  from examine_pending [OF h, of env_two] h show ?thesis
    by (simp add: w_pending_def watch_def Watcher_init_def)
qed

subsection \<open>C7: a glob expansion that fails\<close>

text \<open>
  Claim C7: when the expansion of a glob pattern raises \<^verbatim>\<open>TypeError\<close>,
  \<^verbatim>\<open>get_changed_glob_files\<close> returns the empty list and leaves the watcher as it is, and
  the diff of the task returns a value: the exception does not reach the caller.
\<close>

theorem glob_expansion_failure_recovered:
  assumes "glob_glob env p = Inl TypeError"
  shows "get_changed_glob_files env w p ign = (Inr [], w) \<and>
         (\<not> isfile env p \<and> \<not> isdir env p \<longrightarrow>
            (\<exists>b w'. is_changed env w (TStr p) ign = (Inr (CBool b), w')))"
  using assms
  by (auto simp: get_changed_glob_files_def is_changed_def target_path_def scan_target_def
      Let_def is_file_removed_def)

theorem glob_expansion_failure_recovered_witness:
  "glob_glob env_glob_fails ''build/**/*.css'' = Inl TypeError \<and>
   get_changed_glob_files env_glob_fails (Watcher_init 10) ''build/**/*.css'' None
     = (Inr [], Watcher_init 10) \<and>
   fst (examine env_glob_fails
          (watch (Watcher_init 10) (TStr ''build/**/*.css'') (Some noop) (DFloat 1.0) None))
     = Inr ([], None)"
proof -
  have h: "glob_glob env_glob_fails ''build/**/*.css'' = Inl TypeError"
    by (simp add: env_glob_fails_def std_env_def)
  have e: "fst (examine env_glob_fails
                  (watch (Watcher_init 10) (TStr ''build/**/*.css'') (Some noop) (DFloat 1.0) None))
             = Inr ([], None)"
    by (simp add: eval_defs env_glob_fails_def)
  from glob_expansion_failure_recovered [OF h, of "Watcher_init 10" None] h e
  show ?thesis by simp
qed

subsection \<open>C8: ignored directories\<close>

text \<open>
  Claim C8: the walk of a directory task leaves out every directory whose name is in
  \<^verbatim>\<open>ignored_dirs\<close>, with everything below it: the check of a directory equals the walk
  of the listing from which these directories have been removed at every depth, so
  that two listings that differ only below such directories give the same result and
  the same watcher. \<^verbatim>\<open>.git\<close> is in the list of a new watcher.
\<close>

theorem ignored_directories_pruned:
  assumes "distinct_names (walk env p)"
  shows "is_folder_changed env w p ign
           = walk_tree env ign p (prune (ignored_dirs w) (walk env p)) (False, w) \<and>
         (distinct_names t' \<and> prune (ignored_dirs w) t' = prune (ignored_dirs w) (walk env p)
            \<longrightarrow> walk_tree env ign p t' (False, w) = is_folder_changed env w p ign) \<and>
         ''.git'' \<in> set (ignored_dirs (Watcher_init now))"
proof -
  have a: "walk_tree env ign p (prune (ignored_dirs w) t) (False, w)
             = walk_tree env ign p t (False, w)" if "distinct_names t" for t
    using walk_prune_aux(1) [of "ignored_dirs w" t] that by blast
  have "is_folder_changed env w p ign
          = walk_tree env ign p (prune (ignored_dirs w) (walk env p)) (False, w)"
    using a [OF assms] by (simp add: is_folder_changed_def)
  moreover have "walk_tree env ign p t' (False, w) = is_folder_changed env w p ign"
    if "distinct_names t'"
      and "prune (ignored_dirs w) t' = prune (ignored_dirs w) (walk env p)"
    using a [OF that(1)] a [OF assms] that(2) by (simp add: is_folder_changed_def)
  ultimately show ?thesis by (simp add: Watcher_init_def)
qed

text \<open>
  The file \<^verbatim>\<open>watched/.git/x\<close> is newer than the watcher; the check of \<^verbatim>\<open>watched\<close> reports
  no change and does not stage it.
\<close>

theorem ignored_directories_pruned_witness:
  "distinct_names (walk env_git ''watched'') \<and>
   prune (ignored_dirs w_git) (walk env_git ''watched'')
     = DTree [''index.html''] [(''css'', DTree [''site.css''] [])] \<and>
   isfile env_git ''watched/.git/x'' \<and> start w_git < getmtime env_git ''watched/.git/x'' \<and>
   fst (is_folder_changed env_git w_git ''watched'' None) = False \<and>
   filepaths (snd (is_folder_changed env_git w_git ''watched'' None)) = [] \<and>
   new_mtimes (snd (is_folder_changed env_git w_git ''watched'' None)) ''watched/.git/x'' = None"
proof -
  have h: "distinct_names (walk env_git ''watched'')"
    by (simp add: env_git_def std_env_def git_tree_def)
  have p: "prune (ignored_dirs w_git) (walk env_git ''watched'')
             = DTree [''index.html''] [(''css'', DTree [''site.css''] [])]"
    by (simp add: env_git_def std_env_def git_tree_def w_git_def Watcher_init_def)
  have e: "walk_tree env_git None ''watched''
             (DTree [''index.html''] [(''css'', DTree [''site.css''] [])]) (False, w_git)
           = (False, w_git\<lparr>new_mtimes := [''watched/index.html'' \<mapsto> 5,
                                             ''watched/css/site.css'' \<mapsto> 5]\<rparr>)"
    by (simp add: eval_defs env_git_def w_git_def)
  have m: "isfile env_git ''watched/.git/x'' \<and> start w_git < getmtime env_git ''watched/.git/x''"
    by (simp add: env_git_def std_env_def w_git_def Watcher_init_def)
  from ignored_directories_pruned [OF h, of w_git None] p e h m
  show ?thesis by (simp add: w_git_def Watcher_init_def)
qed

subsection \<open>C9: files older than the watcher\<close>

text \<open>
  Claim C9: a file that no ignore rule covers and that is seen for the first time with
  a modification time at or before the start time is appended to the changed paths
  that \<^verbatim>\<open>examine\<close> returns, although the check returns false for it; so the first poll
  over files older than the watcher can return a non-empty list while it runs no
  callback and returns no delay.

  For every registry and every kind of target (file, directory, pattern), the list that
  a poll returns is the concatenation, over the tasks in order, of the eligible paths
  that the scan of the task visits and whose modification time is not the recorded
  one: a path that is not in the table is listed whatever its modification time. The
  single-file check of such a path that is not newer than the watcher returns false
  and appends it. When every table is empty and every listed path is at or before the
  start time, the poll returns no delay and runs no callback.
\<close>

theorem old_files_listed_unchanged:
  assumes "changes w = []" and "fst (examine env w) = Inr (ps, d)"
  shows "ps = concat (map (reported env w) (tasks w)) \<and>
         (eligible env w ign p \<and> task_mtimes w p = None \<and> getmtime env p \<le> start w \<longrightarrow>
            is_file_changed env w p ign
              = (False, w\<lparr>new_mtimes := (new_mtimes w)(p \<mapsto> getmtime env p),
                           filepaths := filepaths w @ [p]\<rparr>)) \<and>
         ((\<forall>pt \<in> set (tasks w). mtimes (snd pt) = Map.empty \<and>
              (\<forall>x \<in> set (reported env w pt). getmtime env x \<le> start w)) \<longrightarrow>
            d = None \<and> fired (snd (examine env w)) = fired w)"
proof -
  let ?w0 = "w\<lparr>filepaths := []\<rparr>"
  have s0: "same_setup w ?w0" by (simp add: same_setup_def)
  obtain r ts w' where et: "examine_tasks env (tasks w) ?w0 {} = (r, ts, w')"
    by (cases "examine_tasks env (tasks w) ?w0 {}")
  obtain D where r: "r = Inr D" and ps: "ps = filepaths w'"
    and d: "d = (if D = {} then None else Some (Max D))"
    using assms et by (cases r) (simp_all add: examine_def)
  have rc: "reported env ?w0 = reported env w"
    using reported_cong [OF s0, of env] by (intro ext) simp
  have tc: "task_changed env ?w0 pt = task_changed env w pt" for pt
    using task_changed_cong [OF s0, of env pt] by simp
  have one: "ps = concat (map (reported env w) (tasks w))"
    using examine_tasks_filepaths [of env "tasks w" ?w0 "{}" D ts w'] et r ps rc by simp
  have two: "is_file_changed env w p ign
              = (False, w\<lparr>new_mtimes := (new_mtimes w)(p \<mapsto> getmtime env p),
                           filepaths := filepaths w @ [p]\<rparr>)"
    if "eligible env w ign p" and "task_mtimes w p = None" and "getmtime env p \<le> start w"
    using that by (simp add: is_file_changed_def eligible_def ignored_def Let_def)
  have three: "d = None \<and> fired (snd (examine env w)) = fired w"
    if a: "\<forall>pt \<in> set (tasks w). mtimes (snd pt) = Map.empty \<and>
              (\<forall>x \<in> set (reported env w pt). getmtime env x \<le> start w)"
  proof -
    have nc: "\<forall>pt \<in> set (tasks w). \<not> task_changed env w pt"
      using a old_task_not_changed [of _ env w] by blast
    then have nc0: "\<forall>pt \<in> set (tasks w). \<not> task_changed env ?w0 pt" by (simp add: tc)
    have "D = {} \<union> {r. r \<noteq> 0 \<and>
        (\<exists>pt \<in> set (tasks w). task_changed env ?w0 pt \<and> delay (snd pt) = DFloat r)}"
      using examine_tasks_delays [of env "tasks w" ?w0 "{}" D ts w'] et r by simp
    then have "D = {}" using nc0 by auto
    moreover have "fired w' = fired ?w0" using examine_tasks_quiet [OF et nc0] .
    ultimately show ?thesis using d assms(1) et by (simp add: examine_def)
  qed
  show ?thesis using one two three by blast
qed

text \<open>
  The first poll of the directory \<^verbatim>\<open>d\<close>, whose two files are older than the watcher,
  returns both files and no delay, and the task's callback does not run.
\<close>

theorem old_files_listed_unchanged_witness:
  "changes w_dir = [] \<and>
   fst (examine env_before w_dir) = Inr ([''d/a.css'', ''d/b.css''], None) \<and>
   concat (map (reported env_before w_dir) (tasks w_dir)) = [''d/a.css'', ''d/b.css''] \<and>
   map (\<lambda>pt. func (snd pt) \<noteq> None \<and> mtimes (snd pt) = Map.empty) (tasks w_dir) = [True] \<and>
   map (\<lambda>x. getmtime env_before x \<le> start w_dir) [''d/a.css'', ''d/b.css''] = [True, True] \<and>
   fired (snd (examine env_before w_dir)) = []"
proof -
  have h1: "changes w_dir = []" by (simp add: w_dir_def watch_def Watcher_init_def)
  have h2: "fst (examine env_before w_dir) = Inr ([''d/a.css'', ''d/b.css''], None)"
    by (simp add: eval_defs env_before_def w_dir_def)
  have t: "map (\<lambda>pt. func (snd pt) \<noteq> None \<and> mtimes (snd pt) = Map.empty) (tasks w_dir) = [True]"
    by (simp add: w_dir_def watch_def Watcher_init_def)
  have m: "map (\<lambda>x. getmtime env_before x \<le> start w_dir) [''d/a.css'', ''d/b.css'']
             = [True, True]"
    by (simp add: env_before_def std_env_def w_dir_def watch_def Watcher_init_def)
  have f: "fired (snd (examine env_before w_dir)) = []"
    by (simp add: eval_defs env_before_def w_dir_def)
  from old_files_listed_unchanged [OF h1 h2] h1 h2 t m f show ?thesis by simp
qed

subsection \<open>C10: the default ignore configuration\<close>

text \<open>
  Claim C10: a new watcher has the ignore pattern \<^verbatim>\<open>pollen_src/**/compiled/*\<close> and the
  ignored extensions \<^verbatim>\<open>.pyc\<close>, \<^verbatim>\<open>.pyo\<close>, \<^verbatim>\<open>.o\<close> and \<^verbatim>\<open>.swp\<close>; after a registration without a
  custom predicate, a path with one of these extensions or matching the pattern is not
  staged and not reported.
\<close>

theorem default_ignore_configuration:
  "ignore_patterns (Watcher_init now) = [''pollen_src/**/compiled/*''] \<and>
   ignored_file_extensions (Watcher_init now) = [''.pyc'', ''.pyo'', ''.o'', ''.swp''] \<and>
   (snd (splitext p) \<in> {''.pyc'', ''.pyo'', ''.o'', ''.swp''} \<or>
    matches_glob env p ''pollen_src/**/compiled/*''
      \<longrightarrow> is_file_changed env (watch (Watcher_init now) tgt f d None) p None
            = (False, watch (Watcher_init now) tgt f d None))"
  by (auto simp: is_file_changed_def should_ignore_def should_ignore_by_glob_def watch_def
      Watcher_init_def)

theorem default_ignore_configuration_witness:
  "snd (splitext ''app/views.pyc'') = ''.pyc'' \<and>
   matches_glob env_pyc ''pollen_src/a/compiled/page.html'' ''pollen_src/**/compiled/*'' \<and>
   isfile env_pyc ''app/views.pyc'' \<and> start (Watcher_init 10) < getmtime env_pyc ''app/views.pyc'' \<and>
   is_file_changed env_pyc (watch (Watcher_init 10) (TStr ''app'') None (DInt 0) None)
       ''app/views.pyc'' None
     = (False, watch (Watcher_init 10) (TStr ''app'') None (DInt 0) None) \<and>
   is_file_changed env_pyc (watch (Watcher_init 10) (TStr ''app'') None (DInt 0) None)
       ''pollen_src/a/compiled/page.html'' None
     = (False, watch (Watcher_init 10) (TStr ''app'') None (DInt 0) None)"
proof -
  have e: "snd (splitext ''app/views.pyc'') = ''.pyc''"
    by (simp add: splitext_def Let_def)
  have g: "matches_glob env_pyc ''pollen_src/a/compiled/page.html'' ''pollen_src/**/compiled/*''"
    by (simp add: matches_glob_def default_pattern_processed env_pyc_def std_env_def)
  have m: "isfile env_pyc ''app/views.pyc'' \<and>
           start (Watcher_init 10) < getmtime env_pyc ''app/views.pyc''"
    by (simp add: env_pyc_def std_env_def Watcher_init_def)
  from default_ignore_configuration [of 10 "''app/views.pyc''" env_pyc "TStr ''app''" None "DInt 0"]
    default_ignore_configuration [of 10 "''pollen_src/a/compiled/page.html''" env_pyc
      "TStr ''app''" None "DInt 0"] e g m
  show ?thesis by simp
qed

end
